theory Spec2Isabelle
  imports Complex_Main "HOL-Library.Sublist"
begin

section \<open>Data model\<close>

text \<open>
  JavaScript numbers. A finite value is kept as an exact rational (rounding of IEEE
  doubles is not modelled); the three non-finite values are kept apart, since
  \<^verbatim>\<open>Number.isFinite\<close>, \<^verbatim>\<open>Math.min\<close> and the arithmetic of the layout
  distinguish them.
\<close>

datatype number = Fin rat | PInf | NInf | NaN

datatype Side = SideLeft | SideRight | SideUp | SideDown

text \<open>
  \<^verbatim>\<open>NodeT = { id, label, x, y, parentId?, color?, side? }\<close>. An absent or
  \<^verbatim>\<open>null\<close> optional field is \<open>None\<close>. A string is a list of code units below 256.
\<close>

record NodeT =
  n_id :: string
  n_label :: string
  n_x :: number
  n_y :: number
  n_parentId :: "string option"
  n_color :: "string option"
  n_side :: "Side option"

text \<open>\<^verbatim>\<open>MindMapDoc = { id, name, nodes, updatedAt }\<close>\<close>

record MindMapDoc =
  m_id :: string
  m_name :: string
  m_nodes :: "NodeT list"
  m_updatedAt :: number

text \<open>
  \<^verbatim>\<open>Category = { id, name, maps, children? }\<close>; the optional \<^verbatim>\<open>children\<close>
  field is \<open>None\<close> when absent.
\<close>

datatype Category =
  Category (c_id: string) (c_name: string) (c_maps: "MindMapDoc list")
           (c_children: "Category list option")

section \<open>Strings\<close>

text \<open>
  The white space and line terminator code units below 256 that
  \<^verbatim>\<open>String.prototype.trim\<close> removes: TAB, LF, VT, FF, CR, SPACE, NBSP.
\<close>

definition isWhitespace :: "char \<Rightarrow> bool" where
  "isWhitespace c = (of_char c \<in> {9, 10, 11, 12, 13, 32, 160 :: nat})"

definition trim :: "string \<Rightarrow> string" where
  "trim s = rev (dropWhile isWhitespace (rev (dropWhile isWhitespace s)))"

section \<open>Node rename\<close>

text \<open>
  \<^verbatim>\<open>
  function renameNode(nodes, id, newLabel) {
    const label = String(newLabel ?? "").trim();
    const safe = label.length ? label : "(empty)";
    return nodes.map((n) => (n.id === id ? { ...n, label: safe } : n));
  }\<close>
\<close>

definition renameNode :: "NodeT list \<Rightarrow> string \<Rightarrow> string \<Rightarrow> NodeT list" where
  "renameNode nodes ident newLabel =
     (let label = trim newLabel;
          safe = (if length label \<noteq> 0 then label else ''(empty)'')
      in map (\<lambda>n. if n_id n = ident then n\<lparr>n_label := safe\<rparr> else n) nodes)"

section \<open>Numbers\<close>

text \<open>\<^verbatim>\<open>Number.isFinite\<close>, \<^verbatim>\<open>a + b\<close>, \<^verbatim>\<open>a - b\<close>, \<^verbatim>\<open>a / 2\<close>.\<close>

fun isFinite :: "number \<Rightarrow> bool" where
  "isFinite (Fin a) = True"
| "isFinite PInf = False"
| "isFinite NInf = False"
| "isFinite NaN = False"

fun jneg :: "number \<Rightarrow> number" where
  "jneg (Fin a) = Fin (- a)"
| "jneg PInf = NInf"
| "jneg NInf = PInf"
| "jneg NaN = NaN"

fun jadd :: "number \<Rightarrow> number \<Rightarrow> number" where
  "jadd (Fin a) (Fin b) = Fin (a + b)"
| "jadd (Fin a) PInf = PInf"
| "jadd (Fin a) NInf = NInf"
| "jadd PInf (Fin b) = PInf"
| "jadd PInf PInf = PInf"
| "jadd PInf NInf = NaN"
| "jadd NInf (Fin b) = NInf"
| "jadd NInf PInf = NaN"
| "jadd NInf NInf = NInf"
| "jadd NaN b = NaN"
| "jadd a NaN = NaN"

definition jsub :: "number \<Rightarrow> number \<Rightarrow> number" where
  "jsub a b = jadd a (jneg b)"

fun jhalf :: "number \<Rightarrow> number" where
  "jhalf (Fin a) = Fin (a / 2)"
| "jhalf PInf = PInf"
| "jhalf NInf = NInf"
| "jhalf NaN = NaN"

text \<open>
  \<^verbatim>\<open>Math.min(...xs)\<close> and \<^verbatim>\<open>Math.max(...xs)\<close>: \<^verbatim>\<open>NaN\<close> as soon as one
  argument is \<^verbatim>\<open>NaN\<close>, and \<^verbatim>\<open>Infinity\<close>, \<^verbatim>\<open>-Infinity\<close> for no argument.
\<close>

fun jmin2 :: "number \<Rightarrow> number \<Rightarrow> number" where
  "jmin2 NaN b = NaN"
| "jmin2 a NaN = NaN"
| "jmin2 NInf b = NInf"
| "jmin2 a NInf = NInf"
| "jmin2 PInf b = b"
| "jmin2 a PInf = a"
| "jmin2 (Fin a) (Fin b) = Fin (min a b)"

fun jmax2 :: "number \<Rightarrow> number \<Rightarrow> number" where
  "jmax2 NaN b = NaN"
| "jmax2 a NaN = NaN"
| "jmax2 PInf b = PInf"
| "jmax2 a PInf = PInf"
| "jmax2 NInf b = b"
| "jmax2 a NInf = a"
| "jmax2 (Fin a) (Fin b) = Fin (max a b)"

definition Math_min :: "number list \<Rightarrow> number" where
  "Math_min xs = foldr jmin2 xs PInf"

definition Math_max :: "number list \<Rightarrow> number" where
  "Math_max xs = foldr jmax2 xs NInf"

section \<open>Children and roots index\<close>

text \<open>
  Node objects are mutable and shared between the input array, the lists of the
  parent index and the root list, and \<^verbatim>\<open>roots.includes(n)\<close> compares object
  identities. So the node objects live in a store, addressed by references, and an array
  of nodes is a list of references.
\<close>

type_synonym ref = nat
type_synonym heap = "ref \<Rightarrow> NodeT"

text \<open>\<^verbatim>\<open>n.parentId || null\<close>: the empty string is falsy as well.\<close>

definition parentKey :: "string option \<Rightarrow> string option" where
  "parentKey p = (case p of None \<Rightarrow> None | Some s \<Rightarrow> if s = [] then None else Some s)"

text \<open>\<^verbatim>\<open>!n.parentId\<close>\<close>

definition noParent :: "string option \<Rightarrow> bool" where
  "noParent p = (case p of None \<Rightarrow> True | Some s \<Rightarrow> s = [])"

text \<open>
  \<^verbatim>\<open>
  function buildChildrenMap(nodes) {
    const byParent = new Map();
    const ids = new Set(nodes.map((n) => n.id));
    for (const n of nodes) {
      const key = n.parentId || null;
      if (!byParent.has(key)) byParent.set(key, []);
      byParent.get(key).push(n);
    }
    const roots = (byParent.get(null) || []).filter((n) => !n.parentId);
    for (const n of nodes) {
      if (!n.parentId || !ids.has(n.parentId)) {
        if (!roots.includes(n)) roots.push(n);
      }
    }
    return { byParent, roots };
  }\<close>
  The key \<^verbatim>\<open>null\<close> of the index is \<open>None\<close>, a string key \<open>s\<close> is \<open>Some s\<close>.
\<close>

definition getOrEmpty :: "('k \<rightharpoonup> 'v list) \<Rightarrow> 'k \<Rightarrow> 'v list" where
  "getOrEmpty m k = (case m k of None \<Rightarrow> [] | Some l \<Rightarrow> l)"

text \<open>The body of the first loop, for the node \<open>n\<close>.\<close>

definition indexStep ::
  "heap \<Rightarrow> ref \<Rightarrow> (string option \<rightharpoonup> ref list) \<Rightarrow> (string option \<rightharpoonup> ref list)" where
  "indexStep h n byParent =
     (let key = parentKey (n_parentId (h n));
          byParent1 = (if byParent key = None then byParent(key \<mapsto> []) else byParent)
      in byParent1(key \<mapsto> getOrEmpty byParent1 key @ [n]))"

text \<open>The body of the second loop, for the node \<open>n\<close>.\<close>

definition rootStep :: "heap \<Rightarrow> string set \<Rightarrow> ref \<Rightarrow> ref list \<Rightarrow> ref list" where
  "rootStep h ids n roots =
     (if noParent (n_parentId (h n)) \<or>
         (case n_parentId (h n) of None \<Rightarrow> True | Some p \<Rightarrow> p \<notin> ids)
      then (if n \<notin> set roots then roots @ [n] else roots)
      else roots)"

definition buildChildrenMap_store ::
  "heap \<Rightarrow> ref list \<Rightarrow> (string option \<rightharpoonup> ref list) \<times> ref list" where
  "buildChildrenMap_store h nodes =
     (let ids = set (map (\<lambda>n. n_id (h n)) nodes);
          byParent = fold (indexStep h) nodes Map.empty;
          roots0 = filter (\<lambda>n. noParent (n_parentId (h n))) (getOrEmpty byParent None);
          roots = fold (rootStep h ids) nodes roots0
      in (byParent, roots))"

text \<open>
  The function on a node sequence: every slot of the array holds an object of its own
  (the callers pass fresh copies, \<^verbatim>\<open>nodes.map((n) => ({ ...n }))\<close>, or an array
  literal), so the reference of a node is its position in the sequence. The store holds the
  node of slot \<open>r\<close> at the reference \<open>r\<close>, and a node that is never read elsewhere.
\<close>

definition noNode :: NodeT where
  "noNode = \<lparr>n_id = [], n_label = [], n_x = NaN, n_y = NaN, n_parentId = None,
     n_color = None, n_side = None\<rparr>"

definition nodeStore :: "NodeT list \<Rightarrow> heap" where
  "nodeStore nodes = (\<lambda>r. if r < length nodes then nodes ! r else noNode)"

definition buildChildrenMap :: "NodeT list \<Rightarrow> (string option \<rightharpoonup> ref list) \<times> ref list" where
  "buildChildrenMap nodes = buildChildrenMap_store (nodeStore nodes) [0..<length nodes]"

text \<open>A node that the second loop of \<^verbatim>\<open>buildChildrenMap\<close> takes for a root.\<close>

definition isRoot :: "heap \<Rightarrow> string set \<Rightarrow> ref \<Rightarrow> bool" where
  "isRoot h ids n =
     (noParent (n_parentId (h n)) \<or> (\<exists>p. n_parentId (h n) = Some p \<and> p \<notin> ids))"

section \<open>Auto layout\<close>

text \<open>
  \<^verbatim>\<open>
  function autoLayout(nodes) {
    const { byParent, roots } = buildChildrenMap(nodes);
    const V = 90; const H = 120;
    let cursorX = 0;
    function place(n, depth) {
      const ch = byParent.get(n.id) || [];
      if (ch.length === 0) {
        const x = cursorX * H; const y = depth * V;
        n.x = x; n.y = y; cursorX += 1;
        return { x, y };
      } else {
        const childPositions = ch.map((c) => place(c, depth + 1));
        const minX = Math.min(...childPositions.map((p) => p.x));
        const maxX = Math.max(...childPositions.map((p) => p.x));
        const x = (minX + maxX) / 2; const y = depth * V;
        n.x = x; n.y = y;
        return { x, y };
      }
    }
    roots.forEach((r) => place(r, 0));
    const xs = nodes.map((n) => n.x); const ys = nodes.map((n) => n.y);
    const midX = (Math.min(...xs) + Math.max(...xs)) / 2;
    const midY = (Math.min(...ys) + Math.max(...ys)) / 2;
    for (const n of nodes) { n.x -= midX; n.y -= midY; }
    return nodes;
  }\<close>
  The state of the placement is the store of node objects and \<^verbatim>\<open>cursorX\<close>.
  \<^verbatim>\<open>place\<close> recurses through the index and need not return; its first argument
  bounds the depth of nested calls (the call stack), and \<open>None\<close> is a recursion that
  goes deeper.
\<close>

type_synonym layoutState = "heap \<times> nat"

text \<open>\<^verbatim>\<open>list.map(f)\<close> and \<^verbatim>\<open>list.forEach(f)\<close> for an \<open>f\<close> with effects on the state.\<close>

fun mapM :: "('a \<Rightarrow> 's \<Rightarrow> ('b \<times> 's) option) \<Rightarrow> 'a list \<Rightarrow> 's \<Rightarrow> ('b list \<times> 's) option" where
  "mapM f [] s = Some ([], s)"
| "mapM f (a # as) s =
     (case f a s of
        None \<Rightarrow> None
      | Some (b, s1) \<Rightarrow>
          (case mapM f as s1 of
             None \<Rightarrow> None
           | Some (bs, s2) \<Rightarrow> Some (b # bs, s2)))"

primrec place ::
  "nat \<Rightarrow> (string option \<rightharpoonup> ref list) \<Rightarrow> ref \<Rightarrow> nat \<Rightarrow> layoutState \<Rightarrow>
     ((number \<times> number) \<times> layoutState) option" where
  "place 0 byParent n depth s = None"
| "place (Suc fuel) byParent n depth s =
     (let ch = getOrEmpty byParent (Some (n_id (fst s n))) in
      if length ch = 0 then
        (let x = Fin (of_nat (snd s) * 120);
             y = Fin (of_nat depth * 90)
         in Some ((x, y), ((fst s)(n := (fst s n)\<lparr>n_x := x, n_y := y\<rparr>), snd s + 1)))
      else
        (case mapM (\<lambda>c. place fuel byParent c (depth + 1)) ch s of
           None \<Rightarrow> None
         | Some (childPositions, (h1, cursorX)) \<Rightarrow>
             (let minX = Math_min (map fst childPositions);
                  maxX = Math_max (map fst childPositions);
                  x = jhalf (jadd minX maxX);
                  y = Fin (of_nat depth * 90)
              in Some ((x, y), (h1(n := (h1 n)\<lparr>n_x := x, n_y := y\<rparr>), cursorX)))))"

text \<open>
  The last lines of \<^verbatim>\<open>autoLayout\<close>, from \<^verbatim>\<open>const xs = ...\<close> on: they move the
  midpoint of the bounding box of all nodes to the origin.
\<close>

definition centre :: "ref list \<Rightarrow> heap \<Rightarrow> heap" where
  "centre nodes h1 =
     (let xs = map (\<lambda>n. n_x (h1 n)) nodes;
          ys = map (\<lambda>n. n_y (h1 n)) nodes;
          midX = jhalf (jadd (Math_min xs) (Math_max xs));
          midY = jhalf (jadd (Math_min ys) (Math_max ys))
      in fold (\<lambda>n hh. hh(n := (hh n)\<lparr>n_x := jsub (n_x (hh n)) midX,
                                         n_y := jsub (n_y (hh n)) midY\<rparr>)) nodes h1)"

definition autoLayout_store :: "nat \<Rightarrow> heap \<Rightarrow> ref list \<Rightarrow> heap option" where
  "autoLayout_store fuel h nodes =
     (case buildChildrenMap_store h nodes of
        (byParent, roots) \<Rightarrow>
          (case mapM (\<lambda>r. place fuel byParent r 0) roots (h, 0) of
             None \<Rightarrow> None
           | Some (placed, (h1, cursorX)) \<Rightarrow> Some (centre nodes h1)))"

definition autoLayout :: "nat \<Rightarrow> NodeT list \<Rightarrow> NodeT list option" where
  "autoLayout fuel nodes =
     map_option (\<lambda>h1. map h1 [0..<length nodes])
       (autoLayout_store fuel (nodeStore nodes) [0..<length nodes])"

section \<open>Category tree\<close>

text \<open>\<^verbatim>\<open>c.children || []\<close>\<close>

definition kids :: "Category \<Rightarrow> Category list" where
  "kids c = (case c_children c of Some l \<Rightarrow> l | None \<Rightarrow> [])"

text \<open>
  \<^verbatim>\<open>
  function findCategoryById(list, id) {
    for (const c of list) {
      if (c.id === id) return c;
      const deeper = c.children ? findCategoryById(c.children, id) : null;
      if (deeper) return deeper;
    }
    return null;
  }\<close>
\<close>

fun findCategoryById :: "Category list \<Rightarrow> string \<Rightarrow> Category option" where
  "findCategoryById [] ident = None"
| "findCategoryById (Category i n m ch # list) ident =
     (if i = ident then Some (Category i n m ch)
      else (case (case ch of Some l \<Rightarrow> findCategoryById l ident | None \<Rightarrow> None) of
              Some deeper \<Rightarrow> Some deeper
            | None \<Rightarrow> findCategoryById list ident))"

text \<open>
  \<^verbatim>\<open>
  function updateCategory(list, id, updater) {
    return list.map((c) => {
      if (c.id === id) return updater({ ...c, children: c.children ? [...c.children] : [] });
      return { ...c, children: c.children ? updateCategory(c.children, id, updater) : [] };
    });
  }\<close>
\<close>

fun updateCategory :: "Category list \<Rightarrow> string \<Rightarrow> (Category \<Rightarrow> Category) \<Rightarrow> Category list" where
  "updateCategory [] ident updater = []"
| "updateCategory (Category i n m ch # list) ident updater =
     (if i = ident
      then updater (Category i n m (Some (case ch of Some l \<Rightarrow> l | None \<Rightarrow> [])))
      else Category i n m
             (Some (case ch of Some l \<Rightarrow> updateCategory l ident updater | None \<Rightarrow> [])))
     # updateCategory list ident updater"

text \<open>\<^verbatim>\<open>maps.findIndex(p)\<close>, with \<open>None\<close> for \<^verbatim>\<open>-1\<close>.\<close>

fun findIndex :: "('a \<Rightarrow> bool) \<Rightarrow> 'a list \<Rightarrow> nat option" where
  "findIndex p [] = None"
| "findIndex p (a # as) = (if p a then Some 0 else map_option Suc (findIndex p as))"

text \<open>
  \<^verbatim>\<open>
  function upsertMapInCategories(cats, catId, doc) {
    const walk = (list) => list.map((c) => {
      if (c.id === catId) {
        const i = c.maps.findIndex((m) => m.name === doc.name);
        const maps = i >= 0 ? Object.assign([...c.maps], { [i]: doc }) : [doc, ...c.maps];
        return { ...c, maps };
      }
      const children = c.children && c.children.length ? walk(c.children) : c.children;
      return { ...c, children };
    });
    return walk(Array.isArray(cats) ? cats : []);
  }\<close>
\<close>

text \<open>
  The two lines that compute the new map list of the target category,
  \<^verbatim>\<open>const i = ...; const maps = ...\<close>:
\<close>

definition upsertMaps :: "MindMapDoc \<Rightarrow> MindMapDoc list \<Rightarrow> MindMapDoc list" where
  "upsertMaps doc maps =
     (case findIndex (\<lambda>mp. m_name mp = m_name doc) maps of
        Some i \<Rightarrow> maps[i := doc]
      | None \<Rightarrow> doc # maps)"

fun walk :: "string \<Rightarrow> MindMapDoc \<Rightarrow> Category list \<Rightarrow> Category list" where
  "walk catId doc [] = []"
| "walk catId doc (Category i n m ch # list) =
     (if i = catId
      then (let maps = upsertMaps doc m
            in Category i n maps ch)
      else Category i n m
             (case ch of
                Some l \<Rightarrow> if length l \<noteq> 0 then Some (walk catId doc l) else Some l
              | None \<Rightarrow> None))
     # walk catId doc list"

definition upsertMapInCategories :: "Category list \<Rightarrow> string \<Rightarrow> MindMapDoc \<Rightarrow> Category list" where
  "upsertMapInCategories cats catId doc = walk catId doc cats"

text \<open>
  \<^verbatim>\<open>
  function deleteMapFromTree(list, catId, mapId) {
    return updateCategory(list, catId,
      (c) => ({ ...c, maps: c.maps.filter((m) => m.id !== mapId) }));
  }\<close>
\<close>

definition deleteMapFromTree :: "Category list \<Rightarrow> string \<Rightarrow> string \<Rightarrow> Category list" where
  "deleteMapFromTree list catId mapId =
     updateCategory list catId
       (\<lambda>c. Category (c_id c) (c_name c) (filter (\<lambda>m. m_id m \<noteq> mapId) (c_maps c)) (c_children c))"

text \<open>
  \<^verbatim>\<open>
  function addSubCategory(list, parentId, name) {
    const child = { id: uid(), name, maps: [], children: [] };
    return updateCategory(list, parentId,
      (c) => ({ ...c, children: [...(c.children || []), child] }));
  }\<close>
  The random identifier \<^verbatim>\<open>uid()\<close> is an argument.
\<close>

definition addSubCategory :: "string \<Rightarrow> Category list \<Rightarrow> string \<Rightarrow> string \<Rightarrow> Category list" where
  "addSubCategory uid list parentId name =
     (let child = Category uid name [] (Some [])
      in updateCategory list parentId
           (\<lambda>c. Category (c_id c) (c_name c) (c_maps c)
                  (Some ((case c_children c of Some l \<Rightarrow> l | None \<Rightarrow> []) @ [child]))))"

text \<open>
  \<^verbatim>\<open>
  function collectCategoryIds(list) {
    const ids = [];
    const walk = (arr) => { for (const c of arr) {
      ids.push(c.id); if (c.children && c.children.length) walk(c.children); } };
    walk(Array.isArray(list) ? list : []);
    return ids;
  }\<close>
\<close>

fun collectCategoryIds :: "Category list \<Rightarrow> string list" where
  "collectCategoryIds [] = []"
| "collectCategoryIds (Category i n m ch # list) =
     i # (case ch of Some l \<Rightarrow> (if length l \<noteq> 0 then collectCategoryIds l else []) | None \<Rightarrow> [])
       @ collectCategoryIds list"

section \<open>Unique map names\<close>

definition isDigit :: "char \<Rightarrow> bool" where
  "isDigit ch = (48 \<le> (of_char ch :: nat) \<and> (of_char ch :: nat) \<le> 57)"

text \<open>\<^verbatim>\<open>s.lastIndexOf(t)\<close>, with \<open>None\<close> for \<^verbatim>\<open>-1\<close>.\<close>

fun lastIndexOf :: "string \<Rightarrow> string \<Rightarrow> nat option" where
  "lastIndexOf [] t = (if t = [] then Some 0 else None)"
| "lastIndexOf (c # s) t =
     (case lastIndexOf s t of
        Some k \<Rightarrow> Some (Suc k)
      | None \<Rightarrow> if prefix t (c # s) then Some 0 else None)"

text \<open>The decimal numeral of a natural number, as a template literal prints it.\<close>

fun decimal :: "nat \<Rightarrow> string" where
  "decimal k = (if k < 10 then [char_of (48 + k)]
                else decimal (k div 10) @ [char_of (48 + k mod 10)])"

text \<open>\<^verbatim>\<open>`${root} (${i})`\<close>\<close>

definition suffixed :: "string \<Rightarrow> nat \<Rightarrow> string" where
  "suffixed rootName i = rootName @ '' ('' @ decimal i @ '')''"

text \<open>
  The first lines of \<^verbatim>\<open>uniqueMapName\<close>, which compute the root name:
  \<^verbatim>\<open>
    let root = (base || 'Untitled').trim();
    const sufStart = root.lastIndexOf(' (');
    if (sufStart !== -1 && root.endsWith(')')) {
      const num = root.slice(sufStart + 2, -1);
      const digits = num.length > 0 && Array.from(num).every((ch) => ch >= '0' && ch <= '9');
      if (digits) root = root.slice(0, sufStart);
    }\<close>
\<close>

definition mapNameRoot :: "string \<Rightarrow> string" where
  "mapNameRoot base =
     (let rootName = trim (if base = [] then ''Untitled'' else base) in
      case lastIndexOf rootName '' ('' of
        None \<Rightarrow> rootName
      | Some sufStart \<Rightarrow>
          if suffix '')'' rootName then
            (let num = drop (sufStart + 2) (butlast rootName);
                 digits = (length num > 0 \<and> list_all isDigit num)
             in if digits then take sufStart rootName else rootName)
          else rootName)"

declare decimal.simps [simp del]

text \<open>
  The loop \<^verbatim>\<open>let i = 2; while (maps.some((m) => m.name === `${root} (${i})`)) i++;\<close>
  started at \<open>i\<close>. It ends because the numerals of different numbers differ, so only
  finitely many suffixed names are taken.
\<close>

definition digitVal :: "string \<Rightarrow> nat" where
  "digitVal s = foldl (\<lambda>a c. 10 * a + (of_char c - 48)) 0 s"

lemma digitVal_snoc: "digitVal (s @ [c]) = 10 * digitVal s + (of_char c - 48)"
  by (simp add: digitVal_def)

lemma digitVal_decimal: "digitVal (decimal k) = k"
proof (induction k rule: decimal.induct)
  case (1 k)
  show ?case
  proof (cases "k < 10")
    case True
    then show ?thesis by (subst decimal.simps) (simp add: digitVal_def)
  next
    case False
    have m: "(48 + k mod 10) mod 256 = 48 + k mod 10"
      by (rule mod_less) (use pos_mod_bound [of 10 k] in linarith)
    from False 1 have "digitVal (decimal (k div 10)) = k div 10" by simp
    with False m show ?thesis
      by (subst decimal.simps) (simp add: digitVal_snoc)
  qed
qed

lemma decimal_inj: "decimal a = decimal b \<Longrightarrow> a = b"
  by (metis digitVal_decimal)

lemma suffixed_inj: "suffixed r a = suffixed r b \<Longrightarrow> a = b"
  by (simp add: suffixed_def decimal_inj)

lemma finite_taken: "finite {j. \<exists>m\<in>set maps. m_name m = suffixed r j}"
proof -
  have "{j. \<exists>m\<in>set maps. m_name m = suffixed r j} \<subseteq> (suffixed r) -` (m_name ` set maps)"
    by force
  moreover have "finite ((suffixed r) -` (m_name ` set maps))"
    by (rule finite_vimageI) (auto simp: inj_on_def dest: suffixed_inj)
  ultimately show ?thesis by (rule finite_subset)
qed

function nextFree :: "MindMapDoc list \<Rightarrow> string \<Rightarrow> nat \<Rightarrow> nat" where
  "nextFree maps rootName i =
     (if list_ex (\<lambda>m. m_name m = suffixed rootName i) maps
      then nextFree maps rootName (i + 1) else i)"
  by pat_completeness auto
termination
proof (relation "measure (\<lambda>(maps, r, i). card {j. i \<le> j \<and> (\<exists>m\<in>set maps. m_name m = suffixed r j)})")
  show "wf (measure (\<lambda>(maps, r, i). card {j. i \<le> j \<and> (\<exists>m\<in>set maps. m_name m = suffixed r j)}))"
    by simp
next
  fix maps :: "MindMapDoc list" and rootName :: string and i :: nat
  assume a: "list_ex (\<lambda>m. m_name m = suffixed rootName i) maps"
  let ?S = "\<lambda>k. {j. k \<le> j \<and> (\<exists>m\<in>set maps. m_name m = suffixed rootName j)}"
  have fin: "finite (?S i)"
    by (rule finite_subset [OF _ finite_taken [of maps rootName]]) auto
  have mem: "i \<in> ?S i" using a by (auto simp: list_ex_iff)
  have "i \<notin> ?S (i + 1)" by simp
  moreover have "?S (i + 1) \<subseteq> ?S i" by auto
  ultimately have "?S (i + 1) \<subset> ?S i" using mem by blast
  then have "card (?S (i + 1)) < card (?S i)" using fin by (rule psubset_card_mono [rotated])
  then show "((maps, rootName, i + 1), (maps, rootName, i)) \<in>
      measure (\<lambda>(maps, r, i). card {j. i \<le> j \<and> (\<exists>m\<in>set maps. m_name m = suffixed r j)})"
    by simp
qed

declare nextFree.simps [simp del]

text \<open>
  \<^verbatim>\<open>
  function uniqueMapName(maps, base) {
    let root = ...;                       // the root name, as above
    if (!maps.some((m) => m.name === root)) return root;
    let i = 2;
    while (maps.some((m) => m.name === `${root} (${i})`)) i++;
    return `${root} (${i})`;
  }\<close>
\<close>

definition uniqueMapName :: "MindMapDoc list \<Rightarrow> string \<Rightarrow> string" where
  "uniqueMapName maps base =
     (let rootName = mapNameRoot base in
      if \<not> list_ex (\<lambda>m. m_name m = rootName) maps then rootName
      else suffixed rootName (nextFree maps rootName 2))"

text \<open>
  \<^verbatim>\<open>
  function renameMapInTree(list, catId, mapId, newName) {
    return updateCategory(list, catId, (c) => {
      const base = String(newName ?? '').trim() || '(unnamed map)';
      const name = uniqueMapName(c.maps.filter(m => m.id !== mapId), base);
      const maps = c.maps.map((m) => (m.id === mapId ? { ...m, name, updatedAt: Date.now() } : m));
      return { ...c, maps };
    });
  }\<close>
  The clock \<^verbatim>\<open>Date.now()\<close> is an argument.
\<close>

definition renameMapInTree ::
  "number \<Rightarrow> Category list \<Rightarrow> string \<Rightarrow> string \<Rightarrow> string \<Rightarrow> Category list" where
  "renameMapInTree now list catId mapId newName =
     updateCategory list catId
       (\<lambda>c. let base = (if trim newName = [] then ''(unnamed map)'' else trim newName);
                name = uniqueMapName (filter (\<lambda>m. m_id m \<noteq> mapId) (c_maps c)) base;
                maps = map (\<lambda>m. if m_id m = mapId
                                   then m\<lparr>m_name := name, m_updatedAt := now\<rparr> else m) (c_maps c)
            in Category (c_id c) (c_name c) maps (c_children c))"

text \<open>The name that \<^verbatim>\<open>renameMapInTree\<close> gives the renamed map of a category.\<close>

definition renamedName :: "MindMapDoc list \<Rightarrow> string \<Rightarrow> string \<Rightarrow> string" where
  "renamedName maps mapId newName =
     uniqueMapName (filter (\<lambda>m. m_id m \<noteq> mapId) maps)
       (if trim newName = [] then ''(unnamed map)'' else trim newName)"

section \<open>Notions used to state the properties\<close>

text \<open>The id of the node at each reference.\<close>

definition idsOf :: "heap \<Rightarrow> ref \<Rightarrow> string" where
  "idsOf h = (\<lambda>r. n_id (h r))"

text \<open>
  The relation of a node to its children in the parent index: \<open>c\<close> is in the list that
  \<^verbatim>\<open>byParent.get(a.id)\<close> returns.
\<close>

definition kidRel :: "(string option \<rightharpoonup> ref list) \<Rightarrow> (ref \<Rightarrow> string) \<Rightarrow> (ref \<times> ref) set" where
  "kidRel bp idf = {(a, c). c \<in> set (getOrEmpty bp (Some (idf a)))}"

text \<open>
  A node that the layout places: a root, or a node that the parent index lists, directly or
  through other nodes, under a root. These are the nodes \<^verbatim>\<open>place\<close> is called on.
\<close>

definition placed :: "NodeT list \<Rightarrow> ref \<Rightarrow> bool" where
  "placed nodes c =
     (\<exists>r\<in>set (snd (buildChildrenMap nodes)).
        (r, c) \<in> (kidRel (fst (buildChildrenMap nodes)) (idsOf (nodeStore nodes)))\<^sup>*)"

text \<open>
  A name \<open>t\<close> that ends with a parenthesized run of ASCII digits: \<open>t\<close> is \<open>r\<close>, then
  a space and an opening parenthesis, then the non-empty run \<open>ds\<close> of digits, then a
  closing parenthesis.
\<close>

definition numberedName :: "string \<Rightarrow> string \<Rightarrow> string \<Rightarrow> bool" where
  "numberedName t r ds = (t = r @ '' ('' @ ds @ '')'' \<and> ds \<noteq> [] \<and> list_all isDigit ds)"

text \<open>
  The root name as the specification words it: the trimmed base, without its numbered
  suffix when it has one.
\<close>

definition claimedRoot :: "string \<Rightarrow> string \<Rightarrow> bool" where
  "claimedRoot base r =
     ((\<exists>ds. numberedName (trim base) r ds) \<or>
      (\<not> (\<exists>r' ds. numberedName (trim base) r' ds) \<and> r = trim base))"

text \<open>
  The category at a position of the tree: the position \<open>[k]\<close> is the \<open>k\<close>-th top-level
  category, and \<open>k # p\<close> is position \<open>p\<close> among the children of the \<open>k\<close>-th one.
\<close>

fun catAt :: "Category list \<Rightarrow> nat list \<Rightarrow> Category option" where
  "catAt list [] = None"
| "catAt list [k] = (if k < length list then Some (list ! k) else None)"
| "catAt list (k # j # p) = (if k < length list then catAt (kids (list ! k)) (j # p) else None)"

text \<open>
  A position that leads to a category of the tree with no category of the given id
  strictly above it.
\<close>

fun clearAbove :: "Category list \<Rightarrow> string \<Rightarrow> nat list \<Rightarrow> bool" where
  "clearAbove list ident [] = False"
| "clearAbove list ident [k] = (k < length list)"
| "clearAbove list ident (k # j # p) =
     (k < length list \<and> c_id (list ! k) \<noteq> ident \<and> clearAbove (kids (list ! k)) ident (j # p))"

text \<open>The tree with an empty children list given to every category that has none.\<close>

fun withChildren :: "Category list \<Rightarrow> Category list" where
  "withChildren [] = []"
| "withChildren (Category i n m ch # list) =
     Category i n m (Some (case ch of Some l \<Rightarrow> withChildren l | None \<Rightarrow> []))
       # withChildren list"

text \<open>Every category of the tree has a children list.\<close>

fun childrenPresent :: "Category list \<Rightarrow> bool" where
  "childrenPresent [] = True"
| "childrenPresent (Category i n m ch # list) =
     ((case ch of Some l \<Rightarrow> childrenPresent l | None \<Rightarrow> False) \<and> childrenPresent list)"

text \<open>Both coordinates of a node are finite.\<close>

definition finXY :: "NodeT \<Rightarrow> bool" where
  "finXY a = (isFinite (n_x a) \<and> isFinite (n_y a))"

text \<open>Two stores that differ in the coordinates of their nodes only.\<close>

definition xyOnly :: "heap \<Rightarrow> heap \<Rightarrow> bool" where
  "xyOnly h h' = (\<forall>r. \<exists>X Y. h' r = (h r)\<lparr>n_x := X, n_y := Y\<rparr>)"

text \<open>
  The progress of two runs of the placement, from the stores \<open>h\<close> and \<open>g\<close> to \<open>h'\<close>
  and \<open>g'\<close>: a node has been given the same finite coordinates in both, or it is
  untouched in both.
\<close>

definition wrote :: "NodeT \<Rightarrow> NodeT \<Rightarrow> bool" where
  "wrote a b = (finXY a \<and> n_x a = n_x b \<and> n_y a = n_y b)"

definition step2 :: "heap \<Rightarrow> heap \<Rightarrow> heap \<Rightarrow> heap \<Rightarrow> bool" where
  "step2 h g h' g' =
     (xyOnly h h' \<and> xyOnly g g' \<and> (\<forall>r. wrote (h' r) (g' r) \<or> (h' r = h r \<and> g' r = g r)))"

section \<open>Example data\<close>

text \<open>The node list of the application's runtime checks.\<close>

definition sample :: "NodeT list" where
  "sample =
     [\<lparr>n_id = ''A'', n_label = ''A'', n_x = Fin 0, n_y = Fin 0, n_parentId = None,
        n_color = None, n_side = None\<rparr>,
      \<lparr>n_id = ''B'', n_label = ''B'', n_x = Fin 0, n_y = Fin 0, n_parentId = Some ''A'',
        n_color = None, n_side = Some SideRight\<rparr>,
      \<lparr>n_id = ''C'', n_label = ''C'', n_x = Fin 0, n_y = Fin 0, n_parentId = Some ''A'',
        n_color = None, n_side = None\<rparr>]"

text \<open>The layout of the node list of the runtime checks.\<close>

definition sampleLaid :: "NodeT list" where
  "sampleLaid =
     [\<lparr>n_id = ''A'', n_label = ''A'', n_x = Fin 0, n_y = Fin (- 45), n_parentId = None,
        n_color = None, n_side = None\<rparr>,
      \<lparr>n_id = ''B'', n_label = ''B'', n_x = Fin (- 60), n_y = Fin 45, n_parentId = Some ''A'',
        n_color = None, n_side = Some SideRight\<rparr>,
      \<lparr>n_id = ''C'', n_label = ''C'', n_x = Fin 60, n_y = Fin 45, n_parentId = Some ''A'',
        n_color = None, n_side = None\<rparr>]"

text \<open>Two nodes, the first with the empty string for its id and the second its child.\<close>

definition emptyIdNodes :: "NodeT list" where
  "emptyIdNodes =
     [\<lparr>n_id = '''', n_label = ''R'', n_x = Fin 0, n_y = Fin 0, n_parentId = None,
        n_color = None, n_side = None\<rparr>,
      \<lparr>n_id = ''x'', n_label = ''X'', n_x = Fin 0, n_y = Fin 0, n_parentId = Some '''',
        n_color = None, n_side = None\<rparr>]"

text \<open>Two nodes of the same id, the second a child of that id.\<close>

definition dupIdNodes :: "NodeT list" where
  "dupIdNodes =
     [\<lparr>n_id = ''a'', n_label = ''A'', n_x = Fin 0, n_y = Fin 0, n_parentId = None,
        n_color = None, n_side = None\<rparr>,
      \<lparr>n_id = ''a'', n_label = ''B'', n_x = Fin 0, n_y = Fin 0, n_parentId = Some ''a'',
        n_color = None, n_side = None\<rparr>]"

text \<open>A root, and a node that is its own parent, at \<open>x = 100\<close>.\<close>

definition mixedNodes :: "NodeT list" where
  "mixedNodes =
     [\<lparr>n_id = ''r'', n_label = ''R'', n_x = Fin 0, n_y = Fin 0, n_parentId = None,
        n_color = None, n_side = None\<rparr>,
      \<lparr>n_id = ''c'', n_label = ''C'', n_x = Fin 100, n_y = Fin 0, n_parentId = Some ''c'',
        n_color = None, n_side = None\<rparr>]"


text \<open>
  Four nodes of different ids: a root, a node with a dangling parent, and two nodes that are
  each other's parent; and their layout.
\<close>

definition cycNodes :: "NodeT list" where
  "cycNodes =
     [\<lparr>n_id = ''r'', n_label = ''R'', n_x = Fin 0, n_y = Fin 0, n_parentId = None,
        n_color = None, n_side = None\<rparr>,
      \<lparr>n_id = ''d'', n_label = ''D'', n_x = Fin 0, n_y = Fin 0, n_parentId = Some ''gone'',
        n_color = None, n_side = None\<rparr>,
      \<lparr>n_id = ''a'', n_label = ''A'', n_x = Fin 7, n_y = Fin 0, n_parentId = Some ''b'',
        n_color = None, n_side = None\<rparr>,
      \<lparr>n_id = ''b'', n_label = ''B'', n_x = Fin 0, n_y = Fin 9, n_parentId = Some ''a'',
        n_color = None, n_side = None\<rparr>]"

definition cycLaid :: "NodeT list" where
  "cycLaid =
     [\<lparr>n_id = ''r'', n_label = ''R'', n_x = Fin (- 60), n_y = Fin (- (9 / 2)), n_parentId = None,
        n_color = None, n_side = None\<rparr>,
      \<lparr>n_id = ''d'', n_label = ''D'', n_x = Fin 60, n_y = Fin (- (9 / 2)),
        n_parentId = Some ''gone'', n_color = None, n_side = None\<rparr>,
      \<lparr>n_id = ''a'', n_label = ''A'', n_x = Fin (- 53), n_y = Fin (- (9 / 2)),
        n_parentId = Some ''b'', n_color = None, n_side = None\<rparr>,
      \<lparr>n_id = ''b'', n_label = ''B'', n_x = Fin (- 60), n_y = Fin (9 / 2),
        n_parentId = Some ''a'', n_color = None, n_side = None\<rparr>]"

text \<open>The maps of the application's runtime check of the numbered suffix.\<close>

definition mapsNum :: "MindMapDoc list" where
  "mapsNum =
     [\<lparr>m_id = ''1'', m_name = ''X'', m_nodes = [], m_updatedAt = Fin 0\<rparr>,
      \<lparr>m_id = ''2'', m_name = ''X (2)'', m_nodes = [], m_updatedAt = Fin 0\<rparr>,
      \<lparr>m_id = ''3'', m_name = ''X (10)'', m_nodes = [], m_updatedAt = Fin 0\<rparr>]"

text \<open>The category trees and documents of the application's runtime checks.\<close>

definition fakeCats :: "Category list" where
  "fakeCats =
     [Category ''cat1'' ''C1'' [] (Some []),
      Category ''cat2'' ''C2''
        [\<lparr>m_id = ''m1'', m_name = ''MapA'', m_nodes = [], m_updatedAt = Fin 1\<rparr>] (Some [])]"

definition newDoc :: MindMapDoc where
  "newDoc = \<lparr>m_id = ''m2'', m_name = ''MapB'', m_nodes = [], m_updatedAt = Fin 2\<rparr>"

definition updDoc :: MindMapDoc where
  "updDoc = \<lparr>m_id = ''m1'', m_name = ''MapA'',
      m_nodes = [\<lparr>n_id = ''x'', n_label = ''x'', n_x = Fin 0, n_y = Fin 0, n_parentId = None,
                  n_color = None, n_side = None\<rparr>],
      m_updatedAt = Fin 3\<rparr>"

definition rootCats :: "Category list" where
  "rootCats = [Category ''r1'' ''Root'' [] (Some [Category ''c1'' ''Child'' [] (Some [])])]"

definition catsForRename :: "Category list" where
  "catsForRename =
     [Category ''cx'' ''C''
        [\<lparr>m_id = ''m1'', m_name = ''Map'', m_nodes = [], m_updatedAt = Fin 0\<rparr>,
         \<lparr>m_id = ''m2'', m_name = ''Map (2)'', m_nodes = [], m_updatedAt = Fin 0\<rparr>] (Some [])]"

text \<open>
  Category trees for the upsert: a category with three maps and a child that has a map of the
  same name as the second one, beside a category without a children list; a document of
  that name; and three categories of one id, one of them inside another.
\<close>

definition shelfCats :: "Category list" where
  "shelfCats =
     [Category ''a'' ''A''
        [\<lparr>m_id = ''m1'', m_name = ''One'', m_nodes = [], m_updatedAt = Fin 1\<rparr>,
         \<lparr>m_id = ''m2'', m_name = ''Two'', m_nodes = [], m_updatedAt = Fin 2\<rparr>,
         \<lparr>m_id = ''m3'', m_name = ''Three'', m_nodes = [], m_updatedAt = Fin 3\<rparr>]
        (Some [Category ''b'' ''B''
                 [\<lparr>m_id = ''m4'', m_name = ''Two'', m_nodes = [], m_updatedAt = Fin 4\<rparr>] (Some [])]),
      Category ''c'' ''C'' [] None]"

definition twoDoc :: MindMapDoc where
  "twoDoc = \<lparr>m_id = ''m9'', m_name = ''Two'', m_nodes = [], m_updatedAt = Fin 9\<rparr>"

definition twinCats :: "Category list" where
  "twinCats =
     [Category ''a'' ''First'' [] (Some [Category ''a'' ''Inner'' [] (Some [])]),
      Category ''a'' ''Second'' [] (Some [])]"

text \<open>
  A category whose second map has a numbered name; and a target beside a sibling that has
  no children list.
\<close>

definition suffixCats :: "Category list" where
  "suffixCats =
     [Category ''cx'' ''C''
        [\<lparr>m_id = ''m1'', m_name = ''A'', m_nodes = [], m_updatedAt = Fin 0\<rparr>,
         \<lparr>m_id = ''m2'', m_name = ''X (2)'', m_nodes = [], m_updatedAt = Fin 0\<rparr>] (Some [])]"

definition siblingCats :: "Category list" where
  "siblingCats = [Category ''t'' ''Target'' [] (Some []), Category ''s'' ''Sibling'' [] None]"

section \<open>Properties of the string helpers\<close>

lemma trim_decomp:
  "\<exists>pre post. s = pre @ trim s @ post \<and> list_all isWhitespace pre \<and> list_all isWhitespace post"
proof -
  let ?a = "takeWhile isWhitespace s"
  let ?r = "dropWhile isWhitespace s"
  let ?b = "takeWhile isWhitespace (rev ?r)"
  have 1: "s = ?a @ ?r" by simp
  have "rev ?r = ?b @ dropWhile isWhitespace (rev ?r)" by simp
  then have "?r = rev (dropWhile isWhitespace (rev ?r)) @ rev ?b"
    by (metis rev_append rev_rev_ident)
  then have 2: "?r = trim s @ rev ?b" by (simp add: trim_def)
  have 3: "list_all isWhitespace ?a" by (simp add: list_all_iff) (meson set_takeWhileD)
  have 4: "list_all isWhitespace (rev ?b)" by (simp add: list_all_iff) (meson set_takeWhileD)
  from 1 2 have "s = ?a @ trim s @ rev ?b" by simp
  with 3 4 show ?thesis by blast
qed

lemma trim_ends:
  "trim s \<noteq> [] \<Longrightarrow> \<not> isWhitespace (hd (trim s)) \<and> \<not> isWhitespace (last (trim s))"
proof -
  assume ne: "trim s \<noteq> []"
  let ?r = "dropWhile isWhitespace s"
  let ?t = "dropWhile isWhitespace (rev ?r)"
  have t: "trim s = rev ?t" by (simp add: trim_def)
  with ne have tne: "?t \<noteq> []" by simp
  then have h: "\<not> isWhitespace (hd ?t)" by (rule hd_dropWhile)
  have l: "last (trim s) = hd ?t" using tne t by (simp add: last_rev)
  have rne: "?r \<noteq> []" using tne by (cases "?r = []") simp_all
  then have hr: "\<not> isWhitespace (hd ?r)" by (rule hd_dropWhile)
  have "hd (trim s) = last ?t" using tne t by (simp add: hd_rev)
  also have "\<dots> = last (rev ?r)"
    by (metis tne append_Nil2 last_appendR takeWhile_dropWhile_id)
  also have "\<dots> = hd ?r" using rne by (simp add: last_rev)
  finally show ?thesis using h l hr by simp
qed

lemma trim_whitespace: "list_all isWhitespace s \<Longrightarrow> trim s = []"
proof -
  assume "list_all isWhitespace s"
  then have d: "dropWhile isWhitespace s = []"
    unfolding dropWhile_eq_Nil_conv list_all_iff .
  show ?thesis unfolding trim_def d by simp
qed

section \<open>Unique map names: the root and the smallest free suffix\<close>

lemma nextFree_spec:
  "i \<le> nextFree maps r i \<and>
   \<not> list_ex (\<lambda>m. m_name m = suffixed r (nextFree maps r i)) maps \<and>
   (\<forall>j. i \<le> j \<and> j < nextFree maps r i \<longrightarrow> list_ex (\<lambda>m. m_name m = suffixed r j) maps)"
proof (induction maps r i rule: nextFree.induct)
  case (1 maps r i)
  show ?case
  proof (cases "list_ex (\<lambda>m. m_name m = suffixed r i) maps")
    case True
    with 1 have ih: "i + 1 \<le> nextFree maps r (i + 1) \<and>
       \<not> list_ex (\<lambda>m. m_name m = suffixed r (nextFree maps r (i + 1))) maps \<and>
       (\<forall>j. i + 1 \<le> j \<and> j < nextFree maps r (i + 1) \<longrightarrow> list_ex (\<lambda>m. m_name m = suffixed r j) maps)"
      by simp
    have eq: "nextFree maps r i = nextFree maps r (i + 1)"
      using True by (subst nextFree.simps) simp
    have "\<forall>j. i \<le> j \<and> j < nextFree maps r (i + 1) \<longrightarrow> list_ex (\<lambda>m. m_name m = suffixed r j) maps"
    proof (intro allI impI)
      fix j assume "i \<le> j \<and> j < nextFree maps r (i + 1)"
      then show "list_ex (\<lambda>m. m_name m = suffixed r j) maps"
        using True ih by (cases "j = i") auto
    qed
    with ih eq show ?thesis by simp
  next
    case False
    then have "nextFree maps r i = i" by (subst nextFree.simps) simp
    with False show ?thesis by auto
  qed
qed


lemma lastIndexOf_None:
  "lastIndexOf s t = None \<Longrightarrow> j \<le> length s \<Longrightarrow> \<not> prefix t (drop j s)"
proof (induction s arbitrary: j)
  case Nil
  then show ?case by (simp split: if_splits)
next
  case (Cons c s)
  then show ?case by (cases j) (auto split: option.splits if_splits)
qed

lemma lastIndexOf_Some:
  "lastIndexOf s t = Some k \<Longrightarrow>
     k \<le> length s \<and> prefix t (drop k s) \<and> (\<forall>j. k < j \<and> j \<le> length s \<longrightarrow> \<not> prefix t (drop j s))"
proof (induction s arbitrary: k)
  case Nil
  then show ?case by (simp split: if_splits)
next
  case (Cons c s)
  show ?case
  proof (cases "lastIndexOf s t")
    case None
    with Cons.prems have k: "k = 0" and p: "prefix t (c # s)" by (auto split: if_splits)
    have "\<forall>j. 0 < j \<and> j \<le> length (c # s) \<longrightarrow> \<not> prefix t (drop j (c # s))"
    proof (intro allI impI)
      fix j assume j: "0 < j \<and> j \<le> length (c # s)"
      then obtain j' where "j = Suc j'" by (cases j) auto
      with j lastIndexOf_None [OF None, of j'] show "\<not> prefix t (drop j (c # s))" by simp
    qed
    with k p show ?thesis by simp
  next
    case (Some k')
    with Cons.prems have k: "k = Suc k'" by simp
    from Cons.IH [OF Some] have ih: "k' \<le> length s" "prefix t (drop k' s)"
      "\<forall>j. k' < j \<and> j \<le> length s \<longrightarrow> \<not> prefix t (drop j s)" by auto
    have "\<forall>j. Suc k' < j \<and> j \<le> length (c # s) \<longrightarrow> \<not> prefix t (drop j (c # s))"
    proof (intro allI impI)
      fix j assume j: "Suc k' < j \<and> j \<le> length (c # s)"
      then obtain j' where "j = Suc j'" by (cases j) auto
      with j ih(3) show "\<not> prefix t (drop j (c # s))" by simp
    qed
    with k ih show ?thesis by simp
  qed
qed

lemma isDigit_not_space: "isDigit c \<Longrightarrow> c \<noteq> CHR '' ''"
  by (auto simp: isDigit_def)

lemma lastIndexOf_numbered:
  assumes "numberedName t r ds"
  shows "lastIndexOf t '' ('' = Some (length r)"
proof -
  from assms have t: "t = r @ '' ('' @ ds @ '')''" and dg: "list_all isDigit ds"
    by (auto simp: numberedName_def)
  have occ: "prefix '' ('' (drop (length r) t)" by (simp add: t)
  have len: "length r \<le> length t" by (simp add: t)
  obtain k where k: "lastIndexOf t '' ('' = Some k"
    using lastIndexOf_None [of t "'' (''" "length r"] occ len by (cases "lastIndexOf t '' (''") auto
  from lastIndexOf_Some [OF k] have kl: "k \<le> length t" and kp: "prefix '' ('' (drop k t)"
    and kmax: "\<forall>j. k < j \<and> j \<le> length t \<longrightarrow> \<not> prefix '' ('' (drop j t)" by auto
  have "length r \<le> k" using kmax occ len by (meson not_le_imp_less)
  moreover have "\<not> length r < k"
  proof
    assume lt: "length r < k"
    then obtain d where d: "k = length r + Suc d" by (metis less_imp_Suc_add add_Suc_right)
    have "drop k t = drop d (CHR ''('' # ds @ '')'')" by (simp add: t d)
    with kp have "prefix '' ('' (drop d (CHR ''('' # ds @ '')''))" by simp
    then have hd: "drop d (CHR ''('' # ds @ '')'') \<noteq> [] \<and> hd (drop d (CHR ''('' # ds @ '')'')) = CHR '' ''"
      by (auto simp: prefix_def)
    then have dl: "d < length (CHR ''('' # ds @ '')'')" by simp
    from hd hd_drop_conv_nth [OF dl] have "(CHR ''('' # ds @ '')'') ! d = CHR '' ''" by simp
    with dl have "CHR '' '' \<in> set (CHR ''('' # ds @ '')'')" by (metis nth_mem)
    then have "CHR '' '' \<in> set ds" by simp
    with dg show False by (auto simp: list_all_iff dest: isDigit_not_space)
  qed
  ultimately show ?thesis using k by simp
qed

lemma mapNameRoot_numbered:
  assumes "numberedName (trim (if base = [] then ''Untitled'' else base)) r ds"
  shows "mapNameRoot base = r"
proof -
  let ?t = "trim (if base = [] then ''Untitled'' else base)"
  from assms have t: "?t = r @ '' ('' @ ds @ '')''" and ne: "ds \<noteq> []" and dg: "list_all isDigit ds"
    by (auto simp: numberedName_def)
  have li: "lastIndexOf ?t '' ('' = Some (length r)" by (rule lastIndexOf_numbered [OF assms])
  have sf: "suffix '')'' ?t" by (simp add: t suffix_def)
  have bl: "butlast ?t = r @ '' ('' @ ds" by (simp add: t butlast_append)
  have num: "drop (length r + 2) (butlast ?t) = ds" by (simp add: bl)
  have tk: "take (length r) ?t = r" by (simp add: t)
  show ?thesis
    unfolding mapNameRoot_def Let_def li option.case num using sf ne dg tk by simp
qed

lemma mapNameRoot_plain:
  assumes "\<not> (\<exists>r ds. numberedName (trim (if base = [] then ''Untitled'' else base)) r ds)"
  shows "mapNameRoot base = trim (if base = [] then ''Untitled'' else base)"
proof -
  let ?t = "trim (if base = [] then ''Untitled'' else base)"
  show ?thesis
  proof (cases "lastIndexOf ?t '' (''")
    case None
    then show ?thesis by (simp add: mapNameRoot_def)
  next
    case (Some k)
    let ?num = "drop (k + 2) (butlast ?t)"
    have "\<not> (suffix '')'' ?t \<and> ?num \<noteq> [] \<and> list_all isDigit ?num)"
    proof
      assume a: "suffix '')'' ?t \<and> ?num \<noteq> [] \<and> list_all isDigit ?num"
      from lastIndexOf_Some [OF Some] have kp: "prefix '' ('' (drop k ?t)" by simp
      from a obtain u where u: "?t = u @ '')''" by (auto simp: suffix_def)
      then have bl: "butlast ?t = u" by (simp add: butlast_append)
      from a bl have k2: "k + 2 < length u + 1" by (cases "k + 2 < length u + 1") auto
      from kp obtain w where w: "drop k ?t = '' ('' @ w" by (auto simp: prefix_def)
      have "u = take k u @ drop k u" by simp
      moreover have "drop k u = take (length u - k) (drop k ?t)" using k2 by (simp add: u)
      then have "drop k u = '' ('' @ take (length u - k - 2) w" using w k2
        by (simp add: take_Cons')
      moreover have "drop (k + 2) u = drop 2 (drop k u)" by (simp add: add.commute)
      ultimately have "u = take k u @ '' ('' @ drop (k + 2) u" by (metis append_Nil drop_Suc_Cons drop0 numeral_2_eq_2 append_Cons)
      with u bl have "?t = take k u @ '' ('' @ ?num @ '')''" by simp
      with a have "numberedName ?t (take k u) ?num" by (simp add: numberedName_def)
      with assms show False by blast
    qed
    then show ?thesis using Some by (auto simp: mapNameRoot_def Let_def)
  qed
qed


text \<open>
  C1, as amended. \<^verbatim>\<open>uniqueMapName\<close> takes the base, or the literal
  \<^verbatim>\<open>Untitled\<close> when the base is the empty string, trims it, and strips a trailing
  parenthesized run of ASCII digits (with the space before it) to obtain the root name. It
  returns the root unchanged if no existing map has that exact name, and otherwise the root
  followed by \<^verbatim>\<open> (i)\<close> for the smallest \<open>i \<ge> 2\<close> such that no existing map has that
  suffixed name. With maps named \<^verbatim>\<open>X\<close>, \<^verbatim>\<open>X (2)\<close>, \<^verbatim>\<open>X (10)\<close> and base
  \<^verbatim>\<open>X (10)\<close> the result is \<^verbatim>\<open>X (3)\<close>.
\<close>

theorem uniqueMapName_spec:
  "(\<forall>r ds. numberedName (trim (if base = [] then ''Untitled'' else base)) r ds \<longrightarrow>
      mapNameRoot base = r) \<and>
   (\<not> (\<exists>r ds. numberedName (trim (if base = [] then ''Untitled'' else base)) r ds) \<longrightarrow>
      mapNameRoot base = trim (if base = [] then ''Untitled'' else base)) \<and>
   (\<not> list_ex (\<lambda>m. m_name m = mapNameRoot base) maps \<longrightarrow>
      uniqueMapName maps base = mapNameRoot base) \<and>
   (list_ex (\<lambda>m. m_name m = mapNameRoot base) maps \<longrightarrow>
      (\<exists>i\<ge>2. uniqueMapName maps base = mapNameRoot base @ '' ('' @ decimal i @ '')'' \<and>
         \<not> list_ex (\<lambda>m. m_name m = mapNameRoot base @ '' ('' @ decimal i @ '')'') maps \<and>
         (\<forall>j. 2 \<le> j \<and> j < i \<longrightarrow>
            list_ex (\<lambda>m. m_name m = mapNameRoot base @ '' ('' @ decimal j @ '')'') maps))) \<and>
   uniqueMapName mapsNum ''X (10)'' = ''X (3)''"
proof -
  have a: "\<forall>r ds. numberedName (trim (if base = [] then ''Untitled'' else base)) r ds \<longrightarrow>
      mapNameRoot base = r"
    using mapNameRoot_numbered by blast
  have b: "\<not> (\<exists>r ds. numberedName (trim (if base = [] then ''Untitled'' else base)) r ds) \<longrightarrow>
      mapNameRoot base = trim (if base = [] then ''Untitled'' else base)"
    using mapNameRoot_plain by blast
  have c: "\<not> list_ex (\<lambda>m. m_name m = mapNameRoot base) maps \<longrightarrow>
      uniqueMapName maps base = mapNameRoot base"
    by (simp add: uniqueMapName_def Let_def)
  have d: "list_ex (\<lambda>m. m_name m = mapNameRoot base) maps \<longrightarrow>
      (\<exists>i\<ge>2. uniqueMapName maps base = mapNameRoot base @ '' ('' @ decimal i @ '')'' \<and>
         \<not> list_ex (\<lambda>m. m_name m = mapNameRoot base @ '' ('' @ decimal i @ '')'') maps \<and>
         (\<forall>j. 2 \<le> j \<and> j < i \<longrightarrow>
            list_ex (\<lambda>m. m_name m = mapNameRoot base @ '' ('' @ decimal j @ '')'') maps))"
  proof
    assume t: "list_ex (\<lambda>m. m_name m = mapNameRoot base) maps"
    let ?i = "nextFree maps (mapNameRoot base) 2"
    have "uniqueMapName maps base = suffixed (mapNameRoot base) ?i"
      using t by (simp add: uniqueMapName_def Let_def)
    with nextFree_spec [of 2 maps "mapNameRoot base"]
    show "\<exists>i\<ge>2. uniqueMapName maps base = mapNameRoot base @ '' ('' @ decimal i @ '')'' \<and>
         \<not> list_ex (\<lambda>m. m_name m = mapNameRoot base @ '' ('' @ decimal i @ '')'') maps \<and>
         (\<forall>j. 2 \<le> j \<and> j < i \<longrightarrow>
            list_ex (\<lambda>m. m_name m = mapNameRoot base @ '' ('' @ decimal j @ '')'') maps)"
      unfolding suffixed_def by (intro exI [of _ ?i]) simp
  qed
  have e: "uniqueMapName mapsNum ''X (10)'' = ''X (3)''"
    by code_simp
  from a b c d e show ?thesis by blast
qed

theorem uniqueMapName_spec_witness:
  "numberedName (trim ''X (10)'') ''X'' ''10'' \<and>
   mapNameRoot ''X (10)'' = ''X'' \<and>
   list_ex (\<lambda>m. m_name m = ''X'') mapsNum \<and>
   uniqueMapName mapsNum ''X (10)'' = ''X (3)'' \<and>
   uniqueMapName [] ''My Map'' = ''My Map'' \<and>
   uniqueMapName [] '''' = ''Untitled''"
proof -
  have t: "trim ''X (10)'' = ''X (10)''" by code_simp
  have n: "numberedName (trim ''X (10)'') ''X'' ''10''"
    unfolding t by (simp add: numberedName_def isDigit_def)
  have r: "mapNameRoot ''X (10)'' = ''X''"
    using uniqueMapName_spec [of "''X (10)''" mapsNum] n by auto
  have l: "list_ex (\<lambda>m. m_name m = ''X'') mapsNum" by (simp add: mapsNum_def)
  have u: "uniqueMapName mapsNum ''X (10)'' = ''X (3)''"
    using uniqueMapName_spec [of "''X (10)''" mapsNum] by blast
  have "uniqueMapName [] ''My Map'' = ''My Map''" "uniqueMapName [] '''' = ''Untitled''"
    by code_simp+
  with n r l u show ?thesis by simp
qed

text \<open>
  The claim as stated takes the root from the trimmed base itself. For the empty base that
  root is the empty string, which no map of the empty list has, but the function returns
  \<^verbatim>\<open>Untitled\<close>.
\<close>

theorem uniqueMapName_empty_base_counterexample:
  "claimedRoot '''' '''' \<and> \<not> list_ex (\<lambda>m. m_name m = '''') [] \<and>
   uniqueMapName [] '''' = ''Untitled'' \<and> uniqueMapName [] '''' \<noteq> ''''"
proof -
  have t: "trim '''' = ''''" by (simp add: trim_def)
  have "claimedRoot '''' ''''" by (simp add: claimedRoot_def t numberedName_def)
  moreover have "uniqueMapName [] '''' = ''Untitled''" by code_simp
  ultimately show ?thesis by simp
qed

section \<open>Node rename: the label and the frame\<close>

text \<open>
  C6. \<^verbatim>\<open>renameNode\<close> returns a sequence of the same length. At every position, a node
  whose id is the given one is the input node with only its label replaced (so id, x, y,
  parentId, color and side are kept), and any other node is the input node itself. The new
  label is the requested one with its leading and trailing white space removed (the
  requested label is white space, then the trimmed label, then white space, and a
  non-empty trimmed label neither starts nor ends with white space), or the literal
  \<^verbatim>\<open>(empty)\<close> when nothing is left.
\<close>

theorem renameNode_spec:
  "length (renameNode nodes ident newLabel) = length nodes \<and>
   (\<forall>i<length nodes.
      renameNode nodes ident newLabel ! i =
        (if n_id (nodes ! i) = ident
         then (nodes ! i)\<lparr>n_label := (if trim newLabel = [] then ''(empty)'' else trim newLabel)\<rparr>
         else nodes ! i)) \<and>
   (\<exists>pre post. newLabel = pre @ trim newLabel @ post \<and>
      list_all isWhitespace pre \<and> list_all isWhitespace post) \<and>
   (trim newLabel \<noteq> [] \<longrightarrow>
      \<not> isWhitespace (hd (trim newLabel)) \<and> \<not> isWhitespace (last (trim newLabel)))"
proof -
  have "length (renameNode nodes ident newLabel) = length nodes"
    by (simp add: renameNode_def Let_def)
  moreover have "\<forall>i<length nodes.
      renameNode nodes ident newLabel ! i =
        (if n_id (nodes ! i) = ident
         then (nodes ! i)\<lparr>n_label := (if trim newLabel = [] then ''(empty)'' else trim newLabel)\<rparr>
         else nodes ! i)"
    by (simp add: renameNode_def Let_def)
  ultimately show ?thesis
    using trim_decomp [of newLabel] trim_ends [of newLabel] by blast
qed

theorem renameNode_spec_witness:
  "renameNode sample ''B'' ''  New  '' ! 1 = (sample ! 1)\<lparr>n_label := ''New''\<rparr> \<and>
   renameNode sample ''B'' ''  New  '' ! 0 = sample ! 0 \<and>
   renameNode sample ''B'' ''  New  '' ! 2 = sample ! 2 \<and>
   trim ''  New  '' = ''New''"
proof -
  have t: "trim ''  New  '' = ''New''"
    by (simp add: trim_def isWhitespace_def)
  have l: "length sample = 3" by (simp add: sample_def)
  have "\<forall>i<3. renameNode sample ''B'' ''  New  '' ! i =
      (if n_id (sample ! i) = ''B'' then (sample ! i)\<lparr>n_label := ''New''\<rparr> else sample ! i)"
    using renameNode_spec [of sample "''B''" "''  New  ''"] by (simp add: t l)
  then have "renameNode sample ''B'' ''  New  '' ! 1 =
      (if n_id (sample ! 1) = ''B'' then (sample ! 1)\<lparr>n_label := ''New''\<rparr> else sample ! 1)"
    and "renameNode sample ''B'' ''  New  '' ! 0 =
      (if n_id (sample ! 0) = ''B'' then (sample ! 0)\<lparr>n_label := ''New''\<rparr> else sample ! 0)"
    and "renameNode sample ''B'' ''  New  '' ! 2 =
      (if n_id (sample ! 2) = ''B'' then (sample ! 2)\<lparr>n_label := ''New''\<rparr> else sample ! 2)"
    by simp_all
  then show ?thesis using t by (simp add: sample_def)
qed

section \<open>Category tree: lookup and mutation\<close>

lemma withChildren_present: "childrenPresent list \<Longrightarrow> withChildren list = list"
  by (induction list rule: withChildren.induct) (auto split: option.splits)

lemma findCategoryById_missing:
  "ident \<notin> set (collectCategoryIds list) \<Longrightarrow> findCategoryById list ident = None"
  by (induction list ident rule: findCategoryById.induct) (auto split: option.splits if_splits)

lemma findCategoryById_Some_id:
  "findCategoryById list ident = Some c \<Longrightarrow> c_id c = ident"
  by (induction list ident rule: findCategoryById.induct) (auto split: option.splits if_splits)

lemma updateCategory_missing:
  "ident \<notin> set (collectCategoryIds list) \<Longrightarrow> updateCategory list ident upd = withChildren list"
  by (induction list ident upd rule: updateCategory.induct) (auto split: option.splits if_splits)

lemma walk_missing:
  "ident \<notin> set (collectCategoryIds list) \<Longrightarrow> walk ident doc list = list"
  by (induction ident doc list rule: walk.induct) (auto split: option.splits if_splits)

lemma updateCategory_length: "length (updateCategory list ident upd) = length list"
  by (induction list ident upd rule: updateCategory.induct) auto

lemma updateCategory_nth:
  "k < length list \<Longrightarrow>
   updateCategory list ident upd ! k =
     (if c_id (list ! k) = ident
      then upd (Category (c_id (list ! k)) (c_name (list ! k)) (c_maps (list ! k)) (Some (kids (list ! k))))
      else Category (c_id (list ! k)) (c_name (list ! k)) (c_maps (list ! k))
             (Some (updateCategory (kids (list ! k)) ident upd)))"
proof (induction list ident upd arbitrary: k rule: updateCategory.induct)
  case (1 ident updater)
  then show ?case by simp
next
  case (2 i n m ch list ident updater)
  show ?case
  proof (cases k)
    case 0
    then show ?thesis by (cases ch) (simp_all add: kids_def)
  next
    case (Suc k')
    with 2 show ?thesis by simp
  qed
qed

lemma findCategoryById_Cons:
  "findCategoryById (c # list) ident =
     (if c_id c = ident then Some c
      else (case findCategoryById (kids c) ident of
              Some deeper \<Rightarrow> Some deeper
            | None \<Rightarrow> findCategoryById list ident))"
  by (cases c) (auto simp: kids_def split: option.splits)

lemma findCategoryById_updateCategory:
  assumes "\<forall>c. c_id c = ident \<longrightarrow> c_id (upd c) = ident"
  shows "findCategoryById (updateCategory list ident upd) ident =
     map_option (\<lambda>c. upd (Category (c_id c) (c_name c) (c_maps c) (Some (kids c))))
       (findCategoryById list ident)"
  using assms
proof (induction list ident rule: findCategoryById.induct)
  case (1 ident)
  then show ?case by simp
next
  case (2 i n m ch list ident)
  show ?case
  proof (cases "i = ident")
    case True
    have "c_id (upd (Category ident n m (Some (case ch of Some l \<Rightarrow> l | None \<Rightarrow> [])))) = ident"
      using 2(3) by simp
    with True show ?thesis
      by (simp add: findCategoryById_Cons kids_def)
  next
    case False
    show ?thesis
    proof (cases ch)
      case None
      with False 2 show ?thesis by (simp add: findCategoryById_Cons kids_def)
    next
      case (Some l)
      with False 2 show ?thesis
        by (cases "findCategoryById l ident") (simp_all add: findCategoryById_Cons kids_def)
    qed
  qed
qed

lemma findCategoryById_walk:
  "findCategoryById (walk catId doc list) catId =
     map_option (\<lambda>c. Category (c_id c) (c_name c)
          (upsertMaps doc (c_maps c)) (c_children c))
       (findCategoryById list catId)"
proof (induction list catId rule: findCategoryById.induct)
  case (1 ident)
  then show ?case by simp
next
  case (2 i n m ch list ident)
  show ?case
  proof (cases "i = ident")
    case True
    then show ?thesis by (simp add: Let_def split: option.splits)
  next
    case False
    show ?thesis
    proof (cases ch)
      case None
      with False 2 show ?thesis by simp
    next
      case (Some l)
      with False 2 show ?thesis
        by (cases "findCategoryById l ident"; cases l) simp_all
    qed
  qed
qed

lemma findIndex_Some:
  "findIndex p xs = Some k \<Longrightarrow> k < length xs \<and> p (xs ! k) \<and> (\<forall>j<k. \<not> p (xs ! j))"
proof (induction xs arbitrary: k)
  case Nil
  then show ?case by simp
next
  case (Cons a xs)
  show ?case
  proof (cases "p a")
    case True
    with Cons.prems show ?thesis by simp
  next
    case False
    with Cons.prems obtain k' where k': "findIndex p xs = Some k'" "k = Suc k'" by auto
    from Cons.IH [OF k'(1)] False k'(2) show ?thesis
      by (auto simp: nth_Cons split: nat.splits)
  qed
qed

lemma findIndex_None: "findIndex p xs = None \<longleftrightarrow> (\<forall>x\<in>set xs. \<not> p x)"
  by (induction xs) auto

lemma walk_length: "length (walk catId doc list) = length list"
  by (induction catId doc list rule: walk.induct) auto

lemma walk_nth:
  "k < length list \<Longrightarrow>
   walk catId doc list ! k =
     (if c_id (list ! k) = catId
      then Category (c_id (list ! k)) (c_name (list ! k))
             (upsertMaps doc (c_maps (list ! k))) (c_children (list ! k))
      else Category (c_id (list ! k)) (c_name (list ! k)) (c_maps (list ! k))
             (map_option (walk catId doc) (c_children (list ! k))))"
proof (induction catId doc list arbitrary: k rule: walk.induct)
  case (1 catId doc)
  then show ?case by simp
next
  case (2 catId doc i n m ch list)
  show ?case
  proof (cases k)
    case 0
    then show ?thesis by (cases ch) (auto simp: Let_def split: option.splits)
  next
    case (Suc k')
    with 2(3) have "k' < length list" by simp
    from 2(2) [OF this] Suc show ?thesis by simp
  qed
qed

lemma catAt_Cons_Suc: "catAt (c # list) (Suc k # p) = catAt list (k # p)"
  by (cases p) simp_all

lemma clearAbove_Cons_Suc: "clearAbove (c # list) ident (Suc k # p) = clearAbove list ident (k # p)"
  by (cases p) simp_all

lemma catAt_Some_ne: "catAt list p = Some c \<Longrightarrow> p \<noteq> []"
  by (cases p) simp_all

lemma findCategoryById_at:
  "findCategoryById tree ident = Some c \<Longrightarrow>
     \<exists>p. catAt tree p = Some c \<and> clearAbove tree ident p"
proof (induction tree ident rule: findCategoryById.induct)
  case (1 ident)
  then show ?case by simp
next
  case (2 i n m ch list ident)
  show ?case
  proof (cases "i = ident")
    case True
    with 2(3) have "c = Category i n m ch" by simp
    then have "catAt (Category i n m ch # list) [0] = Some c \<and>
        clearAbove (Category i n m ch # list) ident [0]" by simp
    then show ?thesis by blast
  next
    case False
    show ?thesis
    proof (cases "case ch of Some l \<Rightarrow> findCategoryById l ident | None \<Rightarrow> None")
      case None
      with False 2(3) have f: "findCategoryById list ident = Some c" by simp
      from 2(2) [OF False None f] obtain p where p: "catAt list p = Some c" "clearAbove list ident p"
        by blast
      from p(1) obtain k q where pq: "p = k # q" by (cases p) simp_all
      from p pq have "catAt (Category i n m ch # list) (Suc k # q) = Some c \<and>
          clearAbove (Category i n m ch # list) ident (Suc k # q)"
        by (simp add: catAt_Cons_Suc clearAbove_Cons_Suc)
      then show ?thesis by blast
    next
      case (Some deeper)
      with False 2(3) have dc: "deeper = c" by simp
      from Some obtain l where l: "ch = Some l" "findCategoryById l ident = Some c"
        using dc by (cases ch) simp_all
      from 2(1) [OF False l(1) l(2)] obtain p where p: "catAt l p = Some c" "clearAbove l ident p"
        by blast
      from p(1) obtain k q where pq: "p = k # q" by (cases p) simp_all
      from p pq l(1) False have "catAt (Category i n m ch # list) (0 # k # q) = Some c \<and>
          clearAbove (Category i n m ch # list) ident (0 # k # q)"
        by (simp add: kids_def)
      then show ?thesis by blast
    qed
  qed
qed

lemma walk_at:
  "catAt tree p = Some d \<Longrightarrow>
     catAt (walk catId doc tree) p =
       Some (if clearAbove tree catId p
             then (if c_id d = catId
                   then Category (c_id d) (c_name d) (upsertMaps doc (c_maps d)) (c_children d)
                   else Category (c_id d) (c_name d) (c_maps d)
                          (map_option (walk catId doc) (c_children d)))
             else d)"
proof (induction tree p rule: catAt.induct)
  case (1 list)
  then show ?case by simp
next
  case (2 list k)
  then show ?case by (auto simp: walk_length walk_nth split: if_splits)
next
  case (3 list k j p)
  from 3(2) have k: "k < length list" and d: "catAt (kids (list ! k)) (j # p) = Some d"
    by (auto split: if_splits)
  show ?case
  proof (cases "c_id (list ! k) = catId")
    case True
    then have "kids (walk catId doc list ! k) = kids (list ! k)"
      using k by (simp add: walk_nth kids_def)
    then show ?thesis using k d True by (simp add: walk_length)
  next
    case False
    then have "kids (walk catId doc list ! k) = walk catId doc (kids (list ! k))"
      using k by (auto simp: walk_nth kids_def split: option.splits)
    with 3(1) [OF k d] k False show ?thesis by (simp add: walk_length)
  qed
qed

lemma walk_at_None:
  "catAt tree p = None \<Longrightarrow> catAt (walk catId doc tree) p = None"
proof (induction tree p rule: catAt.induct)
  case (1 list)
  then show ?case by simp
next
  case (2 list k)
  then show ?case by (auto simp: walk_length split: if_splits)
next
  case (3 list k j p)
  show ?case
  proof (cases "k < length list")
    case False
    then show ?thesis by (simp add: walk_length)
  next
    case k: True
    with 3(2) have d: "catAt (kids (list ! k)) (j # p) = None" by simp
    show ?thesis
    proof (cases "c_id (list ! k) = catId")
      case True
      then have "kids (walk catId doc list ! k) = kids (list ! k)"
        using k by (simp add: walk_nth kids_def)
      then show ?thesis using k d by (simp add: walk_length)
    next
      case False
      then have "kids (walk catId doc list ! k) = walk catId doc (kids (list ! k))"
        using k by (auto simp: walk_nth kids_def split: option.splits)
      with 3(1) [OF k d] k show ?thesis by (simp add: walk_length)
    qed
  qed
qed

section \<open>A missing category id\<close>

text \<open>
  C9, as amended. When no category of the tree has the given id, \<^verbatim>\<open>findCategoryById\<close>
  returns the absent value, and nothing is raised: \<^verbatim>\<open>updateCategory\<close>, and with it
  \<^verbatim>\<open>deleteMapFromTree\<close>, \<^verbatim>\<open>renameMapInTree\<close> and \<^verbatim>\<open>addSubCategory\<close>, return
  the input tree with an empty children list given to every category that has none (so the
  input tree itself when every category has a children list), and
  \<^verbatim>\<open>upsertMapInCategories\<close> returns the input tree itself.
\<close>

theorem missing_id_noop:
  "ident \<notin> set (collectCategoryIds tree) \<Longrightarrow>
     findCategoryById tree ident = None \<and>
     updateCategory tree ident upd = withChildren tree \<and>
     deleteMapFromTree tree ident mapId = withChildren tree \<and>
     renameMapInTree now tree ident mapId newName = withChildren tree \<and>
     addSubCategory uid tree ident name = withChildren tree \<and>
     upsertMapInCategories tree ident doc = tree \<and>
     (childrenPresent tree \<longrightarrow> withChildren tree = tree)"
  by (simp add: findCategoryById_missing updateCategory_missing walk_missing
      withChildren_present deleteMapFromTree_def renameMapInTree_def addSubCategory_def
      upsertMapInCategories_def Let_def)

theorem missing_id_noop_witness:
  "''nope'' \<notin> set (collectCategoryIds rootCats) \<and> childrenPresent rootCats \<and>
   findCategoryById rootCats ''nope'' = None \<and>
   updateCategory rootCats ''nope'' (\<lambda>c. Category ''x'' ''y'' [] None) = rootCats \<and>
   deleteMapFromTree rootCats ''nope'' ''m1'' = rootCats \<and>
   renameMapInTree (Fin 7) rootCats ''nope'' ''m1'' ''New'' = rootCats \<and>
   addSubCategory ''u'' rootCats ''nope'' ''Sub'' = rootCats \<and>
   upsertMapInCategories rootCats ''nope'' newDoc = rootCats"
proof -
  have h: "''nope'' \<notin> set (collectCategoryIds rootCats)" by (simp add: rootCats_def)
  have p: "childrenPresent rootCats" by (simp add: rootCats_def)
  show ?thesis
    using h p missing_id_noop [OF h, of "\<lambda>c. Category ''x'' ''y'' [] None" "''m1''" "Fin 7"
        "''New''" "''u''" "''Sub''" newDoc]
    by simp
qed

text \<open>
  A category without a children list comes back with an empty one, so the result is not
  structurally equal to the input.
\<close>

theorem missing_id_children_counterexample:
  "''zz'' \<notin> set (collectCategoryIds [Category ''a'' ''A'' [] None]) \<and>
   updateCategory [Category ''a'' ''A'' [] None] ''zz'' (\<lambda>c. c) = [Category ''a'' ''A'' [] (Some [])] \<and>
   updateCategory [Category ''a'' ''A'' [] None] ''zz'' (\<lambda>c. c) \<noteq> [Category ''a'' ''A'' [] None]"
  by simp

section \<open>The frame of updateCategory\<close>

lemma updateCategory_at:
  "clearAbove tree ident p \<Longrightarrow>
     \<exists>c. catAt tree p = Some c \<and>
       catAt (updateCategory tree ident upd) p =
         Some (if c_id c = ident
               then upd (Category (c_id c) (c_name c) (c_maps c) (Some (kids c)))
               else Category (c_id c) (c_name c) (c_maps c)
                      (Some (updateCategory (kids c) ident upd)))"
proof (induction tree ident p rule: clearAbove.induct)
  case (1 list ident)
  then show ?case by simp
next
  case (2 list ident k)
  then show ?case by (simp add: updateCategory_length updateCategory_nth)
next
  case (3 list ident k j p)
  then have k: "k < length list" and ne: "c_id (list ! k) \<noteq> ident"
    and cl: "clearAbove (kids (list ! k)) ident (j # p)" by auto
  from k ne have "kids (updateCategory list ident upd ! k) = updateCategory (kids (list ! k)) ident upd"
    by (simp add: updateCategory_nth kids_def)
  with 3(1) [OF cl] k show ?case by (simp add: updateCategory_length)
qed

text \<open>
  C8, as amended. \<^verbatim>\<open>updateCategory\<close> keeps the number of top-level categories. At
  every position of the input tree with no category of the target id strictly above it: a
  category whose id is the target is replaced by the result of the updater, applied to the
  category with its children list made explicit; any other category comes back with its id,
  name and maps and with a children list that holds, in order, the results of
  \<^verbatim>\<open>updateCategory\<close> for its children (the empty list when it had no children list).
  So a category off the path to the target, with no category of the target id in it, comes
  back with an empty children list given to every category in it that has none, and is
  returned as it is when all of them have one. Nothing is claimed below a category of the
  target id, where the result is whatever the updater returns.
\<close>

theorem updateCategory_frame:
  "length (updateCategory tree ident upd) = length tree \<and>
   (clearAbove tree ident p \<longrightarrow>
     (\<exists>c. catAt tree p = Some c \<and>
        (c_id c = ident \<longrightarrow>
           catAt (updateCategory tree ident upd) p =
             Some (upd (Category (c_id c) (c_name c) (c_maps c) (Some (kids c))))) \<and>
        (c_id c \<noteq> ident \<longrightarrow>
           catAt (updateCategory tree ident upd) p =
             Some (Category (c_id c) (c_name c) (c_maps c)
                     (Some (updateCategory (kids c) ident upd))) \<and>
           length (updateCategory (kids c) ident upd) = length (kids c) \<and>
           (ident \<notin> set (collectCategoryIds (kids c)) \<longrightarrow>
              catAt (updateCategory tree ident upd) p =
                Some (Category (c_id c) (c_name c) (c_maps c) (Some (withChildren (kids c))))) \<and>
           (ident \<notin> set (collectCategoryIds (kids c)) \<and> childrenPresent [c] \<longrightarrow>
              catAt (updateCategory tree ident upd) p = Some c))))"
proof (intro conjI impI)
  show "length (updateCategory tree ident upd) = length tree" by (rule updateCategory_length)
next
  assume "clearAbove tree ident p"
  from updateCategory_at [OF this, of upd] obtain c where c: "catAt tree p = Some c"
    "catAt (updateCategory tree ident upd) p =
       Some (if c_id c = ident
             then upd (Category (c_id c) (c_name c) (c_maps c) (Some (kids c)))
             else Category (c_id c) (c_name c) (c_maps c)
                    (Some (updateCategory (kids c) ident upd)))" by blast
  have w: "ident \<notin> set (collectCategoryIds (kids c)) \<longrightarrow>
      updateCategory (kids c) ident upd = withChildren (kids c)"
    by (simp add: updateCategory_missing)
  have s: "childrenPresent [c] \<longrightarrow> Category (c_id c) (c_name c) (c_maps c) (Some (withChildren (kids c))) = c"
    by (cases c) (auto simp: kids_def withChildren_present split: option.splits)
  show "\<exists>c. catAt tree p = Some c \<and>
        (c_id c = ident \<longrightarrow>
           catAt (updateCategory tree ident upd) p =
             Some (upd (Category (c_id c) (c_name c) (c_maps c) (Some (kids c))))) \<and>
        (c_id c \<noteq> ident \<longrightarrow>
           catAt (updateCategory tree ident upd) p =
             Some (Category (c_id c) (c_name c) (c_maps c)
                     (Some (updateCategory (kids c) ident upd))) \<and>
           length (updateCategory (kids c) ident upd) = length (kids c) \<and>
           (ident \<notin> set (collectCategoryIds (kids c)) \<longrightarrow>
              catAt (updateCategory tree ident upd) p =
                Some (Category (c_id c) (c_name c) (c_maps c) (Some (withChildren (kids c))))) \<and>
           (ident \<notin> set (collectCategoryIds (kids c)) \<and> childrenPresent [c] \<longrightarrow>
              catAt (updateCategory tree ident upd) p = Some c))"
    using c w s by (intro exI [of _ c]) (simp add: updateCategory_length)
qed

theorem updateCategory_frame_witness:
  "clearAbove rootCats ''c1'' [0, 0] \<and> clearAbove rootCats ''c1'' [0] \<and>
   clearAbove siblingCats ''t'' [1] \<and>
   catAt (updateCategory rootCats ''c1'' (\<lambda>c. Category (c_id c) ''Renamed'' (c_maps c) (c_children c))) [0, 0]
     = Some (Category ''c1'' ''Renamed'' [] (Some [])) \<and>
   catAt (updateCategory rootCats ''c1'' (\<lambda>c. Category (c_id c) ''Renamed'' (c_maps c) (c_children c))) [0]
     = Some (Category ''r1'' ''Root'' [] (Some [Category ''c1'' ''Renamed'' [] (Some [])])) \<and>
   catAt (updateCategory siblingCats ''t'' (\<lambda>c. Category (c_id c) ''Renamed'' (c_maps c) (c_children c))) [1]
     = Some (Category ''s'' ''Sibling'' [] (Some []))"
proof -
  let ?u = "\<lambda>c. Category (c_id c) ''Renamed'' (c_maps c) (c_children c)"
  have a: "clearAbove rootCats ''c1'' [0, 0]" by (simp add: rootCats_def kids_def)
  have b: "clearAbove rootCats ''c1'' [0]" by (simp add: rootCats_def)
  have e: "clearAbove siblingCats ''t'' [1]" by (simp add: siblingCats_def)
  from updateCategory_frame [of rootCats "''c1''" ?u "[0, 0]"]
  have 1: "catAt (updateCategory rootCats ''c1'' ?u) [0, 0] = Some (Category ''c1'' ''Renamed'' [] (Some []))"
    by (simp add: rootCats_def kids_def)
  from updateCategory_frame [of rootCats "''c1''" ?u "[0]"]
  have 2: "catAt (updateCategory rootCats ''c1'' ?u) [0] =
      Some (Category ''r1'' ''Root'' [] (Some [Category ''c1'' ''Renamed'' [] (Some [])]))"
    by (simp add: rootCats_def kids_def)
  from updateCategory_frame [of siblingCats "''t''" ?u "[1]"]
  have 3: "catAt (updateCategory siblingCats ''t'' ?u) [1] = Some (Category ''s'' ''Sibling'' [] (Some []))"
    by (simp add: siblingCats_def kids_def)
  from a b e 1 2 3 show ?thesis by blast
qed

text \<open>
  The claim as stated speaks of every category of the result. Below the target the result is
  the updater's: with the updater of \<^verbatim>\<open>addSubCategory\<close> the result has a category
  \<^verbatim>\<open>u\<close> that is not the target and has no counterpart in the input, and an updater
  that empties the children list drops the input category \<^verbatim>\<open>c1\<close>, which is not the
  target either. And a sibling of the target that has no children list comes back with an
  empty one, so it is not returned unchanged.
\<close>

theorem updateCategory_frame_counterexample:
  "catAt (updateCategory rootCats ''r1''
       (\<lambda>c. Category (c_id c) (c_name c) (c_maps c) (Some (kids c @ [Category ''u'' ''Sub'' [] (Some [])])))) [0, 1]
     = Some (Category ''u'' ''Sub'' [] (Some [])) \<and>
   ''u'' \<noteq> ''r1'' \<and> catAt rootCats [0, 1] = None \<and> ''u'' \<notin> set (collectCategoryIds rootCats) \<and>
   catAt rootCats [0, 0] = Some (Category ''c1'' ''Child'' [] (Some [])) \<and> ''c1'' \<noteq> ''r1'' \<and>
   updateCategory rootCats ''r1'' (\<lambda>c. Category (c_id c) (c_name c) (c_maps c) (Some []))
     = [Category ''r1'' ''Root'' [] (Some [])] \<and>
   catAt siblingCats [1] = Some (Category ''s'' ''Sibling'' [] None) \<and> ''s'' \<noteq> ''t'' \<and>
   catAt (updateCategory siblingCats ''t'' (\<lambda>c. c)) [1] = Some (Category ''s'' ''Sibling'' [] (Some [])) \<and>
   Category ''s'' ''Sibling'' [] (Some []) \<noteq> Category ''s'' ''Sibling'' [] None"
  by (simp add: rootCats_def siblingCats_def kids_def)

section \<open>Upsert and rename of a map\<close>

lemma upsertMaps_present:
  "\<exists>m\<in>set maps. m_name m = m_name doc \<Longrightarrow>
     \<exists>i<length maps. m_name (maps ! i) = m_name doc \<and> (\<forall>j<i. m_name (maps ! j) \<noteq> m_name doc) \<and>
        upsertMaps doc maps = maps[i := doc]"
proof -
  assume a: "\<exists>m\<in>set maps. m_name m = m_name doc"
  then obtain i where i: "findIndex (\<lambda>mp. m_name mp = m_name doc) maps = Some i"
    using findIndex_None [of "\<lambda>mp. m_name mp = m_name doc" maps]
    by (cases "findIndex (\<lambda>mp. m_name mp = m_name doc) maps") auto
  from findIndex_Some [OF i] i show ?thesis by (auto simp: upsertMaps_def)
qed

lemma upsertMaps_absent:
  "\<forall>m\<in>set maps. m_name m \<noteq> m_name doc \<Longrightarrow> upsertMaps doc maps = doc # maps"
  using findIndex_None [of "\<lambda>mp. m_name mp = m_name doc" maps] by (simp add: upsertMaps_def)

lemma upsertMaps_cases:
  "((\<exists>m\<in>set maps. m_name m = m_name doc) \<longrightarrow>
      (\<exists>i<length maps. m_name (maps ! i) = m_name doc \<and>
         (\<forall>j<i. m_name (maps ! j) \<noteq> m_name doc) \<and>
         length (upsertMaps doc maps) = length maps \<and> upsertMaps doc maps ! i = doc \<and>
         (\<forall>j<length maps. j \<noteq> i \<longrightarrow> upsertMaps doc maps ! j = maps ! j))) \<and>
   ((\<forall>m\<in>set maps. m_name m \<noteq> m_name doc) \<longrightarrow> upsertMaps doc maps = doc # maps)"
proof (intro conjI impI)
  assume "\<exists>m\<in>set maps. m_name m = m_name doc"
  from upsertMaps_present [OF this] obtain i where i: "i < length maps"
    "m_name (maps ! i) = m_name doc" "\<forall>j<i. m_name (maps ! j) \<noteq> m_name doc"
    "upsertMaps doc maps = maps[i := doc]" by blast
  then show "\<exists>i<length maps. m_name (maps ! i) = m_name doc \<and>
         (\<forall>j<i. m_name (maps ! j) \<noteq> m_name doc) \<and>
         length (upsertMaps doc maps) = length maps \<and> upsertMaps doc maps ! i = doc \<and>
         (\<forall>j<length maps. j \<noteq> i \<longrightarrow> upsertMaps doc maps ! j = maps ! j)"
    by (intro exI [of _ i]) simp
next
  assume "\<forall>m\<in>set maps. m_name m \<noteq> m_name doc"
  then show "upsertMaps doc maps = doc # maps" by (rule upsertMaps_absent)
qed

text \<open>
  C3, as amended. \<^verbatim>\<open>upsertMapInCategories\<close> keeps the shape of the tree: every
  category stays at its position with its id and name, and with as many children. A category
  gets the upsert when its id is the given one and no category of that id lies above it, as
  does the category that \<^verbatim>\<open>findCategoryById\<close> returns for the id: if some map of it
  has the name of the document, the first such map is replaced by the document at its index,
  the length and every other position being unchanged; otherwise the document is put in front
  of the list. Only names are compared, never ids. A category with another id keeps its map
  list, and a category below one of the given id is returned as it is, whatever its id.
\<close>

theorem upsertMapInCategories_spec:
  "(\<forall>p. catAt tree p = None \<longrightarrow> catAt (upsertMapInCategories tree catId doc) p = None) \<and>
   (\<forall>p d. catAt tree p = Some d \<longrightarrow>
      (\<exists>d'. catAt (upsertMapInCategories tree catId doc) p = Some d' \<and>
         c_id d' = c_id d \<and> c_name d' = c_name d \<and>
         (c_children d' = None \<longleftrightarrow> c_children d = None) \<and>
         length (kids d') = length (kids d) \<and>
         (c_id d = catId \<and> clearAbove tree catId p \<longrightarrow>
            c_children d' = c_children d \<and>
            ((\<exists>m\<in>set (c_maps d). m_name m = m_name doc) \<longrightarrow>
               (\<exists>i<length (c_maps d). m_name (c_maps d ! i) = m_name doc \<and>
                  (\<forall>j<i. m_name (c_maps d ! j) \<noteq> m_name doc) \<and>
                  length (c_maps d') = length (c_maps d) \<and> c_maps d' ! i = doc \<and>
                  (\<forall>j<length (c_maps d). j \<noteq> i \<longrightarrow> c_maps d' ! j = c_maps d ! j))) \<and>
            ((\<forall>m\<in>set (c_maps d). m_name m \<noteq> m_name doc) \<longrightarrow> c_maps d' = doc # c_maps d)) \<and>
         (c_id d \<noteq> catId \<longrightarrow> c_maps d' = c_maps d) \<and>
         (\<not> clearAbove tree catId p \<longrightarrow> d' = d))) \<and>
   (\<forall>c. findCategoryById tree catId = Some c \<longrightarrow>
      (\<exists>p. catAt tree p = Some c \<and> c_id c = catId \<and> clearAbove tree catId p) \<and>
      (\<exists>c'. findCategoryById (upsertMapInCategories tree catId doc) catId = Some c' \<and>
         c_id c' = c_id c \<and> c_name c' = c_name c \<and> c_children c' = c_children c \<and>
         ((\<exists>m\<in>set (c_maps c). m_name m = m_name doc) \<longrightarrow>
            (\<exists>i<length (c_maps c). m_name (c_maps c ! i) = m_name doc \<and>
               (\<forall>j<i. m_name (c_maps c ! j) \<noteq> m_name doc) \<and>
               length (c_maps c') = length (c_maps c) \<and> c_maps c' ! i = doc \<and>
               (\<forall>j<length (c_maps c). j \<noteq> i \<longrightarrow> c_maps c' ! j = c_maps c ! j))) \<and>
         ((\<forall>m\<in>set (c_maps c). m_name m \<noteq> m_name doc) \<longrightarrow> c_maps c' = doc # c_maps c)))"
proof (intro conjI allI impI)
  fix p assume "catAt tree p = None"
  then show "catAt (upsertMapInCategories tree catId doc) p = None"
    by (simp add: upsertMapInCategories_def walk_at_None)
next
  fix p d assume d: "catAt tree p = Some d"
  let ?d' = "if clearAbove tree catId p
             then (if c_id d = catId
                   then Category (c_id d) (c_name d) (upsertMaps doc (c_maps d)) (c_children d)
                   else Category (c_id d) (c_name d) (c_maps d)
                          (map_option (walk catId doc) (c_children d)))
             else d"
  have at: "catAt (upsertMapInCategories tree catId doc) p = Some ?d'"
    using walk_at [OF d] by (simp add: upsertMapInCategories_def)
  have k: "length (kids ?d') = length (kids d)"
    by (cases "c_children d") (simp_all add: kids_def walk_length)
  have m: "c_id d = catId \<and> clearAbove tree catId p \<longrightarrow> c_maps ?d' = upsertMaps doc (c_maps d)"
    by simp
  show "\<exists>d'. catAt (upsertMapInCategories tree catId doc) p = Some d' \<and>
         c_id d' = c_id d \<and> c_name d' = c_name d \<and>
         (c_children d' = None \<longleftrightarrow> c_children d = None) \<and>
         length (kids d') = length (kids d) \<and>
         (c_id d = catId \<and> clearAbove tree catId p \<longrightarrow>
            c_children d' = c_children d \<and>
            ((\<exists>m\<in>set (c_maps d). m_name m = m_name doc) \<longrightarrow>
               (\<exists>i<length (c_maps d). m_name (c_maps d ! i) = m_name doc \<and>
                  (\<forall>j<i. m_name (c_maps d ! j) \<noteq> m_name doc) \<and>
                  length (c_maps d') = length (c_maps d) \<and> c_maps d' ! i = doc \<and>
                  (\<forall>j<length (c_maps d). j \<noteq> i \<longrightarrow> c_maps d' ! j = c_maps d ! j))) \<and>
            ((\<forall>m\<in>set (c_maps d). m_name m \<noteq> m_name doc) \<longrightarrow> c_maps d' = doc # c_maps d)) \<and>
         (c_id d \<noteq> catId \<longrightarrow> c_maps d' = c_maps d) \<and>
         (\<not> clearAbove tree catId p \<longrightarrow> d' = d)"
  proof (intro exI [of _ ?d'] conjI)
    show "catAt (upsertMapInCategories tree catId doc) p = Some ?d'" by (rule at)
    show "c_id ?d' = c_id d" by simp
    show "c_name ?d' = c_name d" by simp
    show "(c_children ?d' = None) = (c_children d = None)" by simp
    show "length (kids ?d') = length (kids d)" by (rule k)
    show "c_id d = catId \<and> clearAbove tree catId p \<longrightarrow>
            c_children ?d' = c_children d \<and>
            ((\<exists>m\<in>set (c_maps d). m_name m = m_name doc) \<longrightarrow>
               (\<exists>i<length (c_maps d). m_name (c_maps d ! i) = m_name doc \<and>
                  (\<forall>j<i. m_name (c_maps d ! j) \<noteq> m_name doc) \<and>
                  length (c_maps ?d') = length (c_maps d) \<and> c_maps ?d' ! i = doc \<and>
                  (\<forall>j<length (c_maps d). j \<noteq> i \<longrightarrow> c_maps ?d' ! j = c_maps d ! j))) \<and>
            ((\<forall>m\<in>set (c_maps d). m_name m \<noteq> m_name doc) \<longrightarrow> c_maps ?d' = doc # c_maps d)"
    proof
      assume a: "c_id d = catId \<and> clearAbove tree catId p"
      then have e: "?d' = Category (c_id d) (c_name d) (upsertMaps doc (c_maps d)) (c_children d)"
        by simp
      show "c_children ?d' = c_children d \<and>
            ((\<exists>m\<in>set (c_maps d). m_name m = m_name doc) \<longrightarrow>
               (\<exists>i<length (c_maps d). m_name (c_maps d ! i) = m_name doc \<and>
                  (\<forall>j<i. m_name (c_maps d ! j) \<noteq> m_name doc) \<and>
                  length (c_maps ?d') = length (c_maps d) \<and> c_maps ?d' ! i = doc \<and>
                  (\<forall>j<length (c_maps d). j \<noteq> i \<longrightarrow> c_maps ?d' ! j = c_maps d ! j))) \<and>
            ((\<forall>m\<in>set (c_maps d). m_name m \<noteq> m_name doc) \<longrightarrow> c_maps ?d' = doc # c_maps d)"
        unfolding e using upsertMaps_cases [of "c_maps d" doc] by simp
    qed
    show "c_id d \<noteq> catId \<longrightarrow> c_maps ?d' = c_maps d" by simp
    show "\<not> clearAbove tree catId p \<longrightarrow> ?d' = d" by simp
  qed
next
  fix c assume f: "findCategoryById tree catId = Some c"
  from findCategoryById_at [OF f] findCategoryById_Some_id [OF f]
  show "\<exists>p. catAt tree p = Some c \<and> c_id c = catId \<and> clearAbove tree catId p" by blast
  let ?c' = "Category (c_id c) (c_name c) (upsertMaps doc (c_maps c)) (c_children c)"
  have 1: "findCategoryById (upsertMapInCategories tree catId doc) catId = Some ?c'"
    using f by (simp add: upsertMapInCategories_def findCategoryById_walk)
  show "\<exists>c'. findCategoryById (upsertMapInCategories tree catId doc) catId = Some c' \<and>
         c_id c' = c_id c \<and> c_name c' = c_name c \<and> c_children c' = c_children c \<and>
         ((\<exists>m\<in>set (c_maps c). m_name m = m_name doc) \<longrightarrow>
            (\<exists>i<length (c_maps c). m_name (c_maps c ! i) = m_name doc \<and>
               (\<forall>j<i. m_name (c_maps c ! j) \<noteq> m_name doc) \<and>
               length (c_maps c') = length (c_maps c) \<and> c_maps c' ! i = doc \<and>
               (\<forall>j<length (c_maps c). j \<noteq> i \<longrightarrow> c_maps c' ! j = c_maps c ! j))) \<and>
         ((\<forall>m\<in>set (c_maps c). m_name m \<noteq> m_name doc) \<longrightarrow> c_maps c' = doc # c_maps c)"
    using 1 upsertMaps_cases [of "c_maps c" doc] by (intro exI [of _ ?c']) simp
qed

theorem upsertMapInCategories_spec_witness:
  "catAt shelfCats [0] = Some (shelfCats ! 0) \<and> c_id (shelfCats ! 0) = ''a'' \<and>
   clearAbove shelfCats ''a'' [0] \<and>
   m_name (c_maps (shelfCats ! 0) ! 1) = m_name twoDoc \<and>
   m_name (c_maps (shelfCats ! 0) ! 0) \<noteq> m_name twoDoc \<and>
   m_id (c_maps (shelfCats ! 0) ! 1) \<noteq> m_id twoDoc \<and>
   (\<exists>d'. catAt (upsertMapInCategories shelfCats ''a'' twoDoc) [0] = Some d' \<and>
      c_id d' = ''a'' \<and> c_name d' = ''A'' \<and> c_children d' = c_children (shelfCats ! 0) \<and>
      c_maps d' = [c_maps (shelfCats ! 0) ! 0, twoDoc, c_maps (shelfCats ! 0) ! 2]) \<and>
   catAt (upsertMapInCategories shelfCats ''a'' twoDoc) [0, 0] = catAt shelfCats [0, 0] \<and>
   catAt (upsertMapInCategories shelfCats ''a'' twoDoc) [1] = catAt shelfCats [1] \<and>
   catAt (upsertMapInCategories shelfCats ''a'' twoDoc) [2] = None \<and>
   catAt (upsertMapInCategories shelfCats ''a'' (twoDoc\<lparr>m_name := ''Four''\<rparr>)) [0] =
     Some (Category ''a'' ''A'' (twoDoc\<lparr>m_name := ''Four''\<rparr> # c_maps (shelfCats ! 0))
       (c_children (shelfCats ! 0)))"
proof -
  have a: "catAt shelfCats [0] = Some (shelfCats ! 0)" "c_id (shelfCats ! 0) = ''a''"
    "clearAbove shelfCats ''a'' [0]"
    by (simp_all add: shelfCats_def)
  have n: "m_name (c_maps (shelfCats ! 0) ! 1) = m_name twoDoc"
    "m_name (c_maps (shelfCats ! 0) ! 0) \<noteq> m_name twoDoc"
    "m_id (c_maps (shelfCats ! 0) ! 1) \<noteq> m_id twoDoc"
    by (simp_all add: shelfCats_def twoDoc_def)
  have b: "catAt shelfCats [0, 0] =
      Some (Category ''b'' ''B''
              [\<lparr>m_id = ''m4'', m_name = ''Two'', m_nodes = [], m_updatedAt = Fin 4\<rparr>] (Some []))"
    "catAt shelfCats [1] = Some (Category ''c'' ''C'' [] None)" "catAt shelfCats [2] = None"
    by (simp_all add: shelfCats_def kids_def)
  note spec = upsertMapInCategories_spec [of shelfCats "''a''" twoDoc]
  from spec a(1) obtain d' where d': "catAt (upsertMapInCategories shelfCats ''a'' twoDoc) [0] = Some d'"
    "c_id d' = c_id (shelfCats ! 0)" "c_name d' = c_name (shelfCats ! 0)"
    "c_id (shelfCats ! 0) = ''a'' \<and> clearAbove shelfCats ''a'' [0] \<longrightarrow>
       c_children d' = c_children (shelfCats ! 0) \<and>
       ((\<exists>m\<in>set (c_maps (shelfCats ! 0)). m_name m = m_name twoDoc) \<longrightarrow>
          (\<exists>i<length (c_maps (shelfCats ! 0)). m_name (c_maps (shelfCats ! 0) ! i) = m_name twoDoc \<and>
             (\<forall>j<i. m_name (c_maps (shelfCats ! 0) ! j) \<noteq> m_name twoDoc) \<and>
             length (c_maps d') = length (c_maps (shelfCats ! 0)) \<and> c_maps d' ! i = twoDoc \<and>
             (\<forall>j<length (c_maps (shelfCats ! 0)). j \<noteq> i \<longrightarrow> c_maps d' ! j = c_maps (shelfCats ! 0) ! j))) \<and>
       ((\<forall>m\<in>set (c_maps (shelfCats ! 0)). m_name m \<noteq> m_name twoDoc) \<longrightarrow>
          c_maps d' = twoDoc # c_maps (shelfCats ! 0))"
    by blast
  have ex: "\<exists>m\<in>set (c_maps (shelfCats ! 0)). m_name m = m_name twoDoc"
    by (simp add: shelfCats_def twoDoc_def)
  from d'(4) a ex obtain i where i: "i < length (c_maps (shelfCats ! 0))"
    "m_name (c_maps (shelfCats ! 0) ! i) = m_name twoDoc"
    "length (c_maps d') = length (c_maps (shelfCats ! 0))" "c_maps d' ! i = twoDoc"
    "\<forall>j<length (c_maps (shelfCats ! 0)). j \<noteq> i \<longrightarrow> c_maps d' ! j = c_maps (shelfCats ! 0) ! j"
    and ch: "c_children d' = c_children (shelfCats ! 0)"
    by blast
  have l3: "length (c_maps (shelfCats ! 0)) = 3" by (simp add: shelfCats_def)
  from i(1) l3 have "i = 0 \<or> i = 1 \<or> i = 2" by auto
  with i(2) have i1: "i = 1" by (auto simp: shelfCats_def twoDoc_def)
  have "c_maps d' = [c_maps d' ! 0, c_maps d' ! 1, c_maps d' ! 2]"
    using i(3) l3 by (auto simp: list_eq_iff_nth_eq less_Suc_eq numeral_3_eq_3 numeral_2_eq_2)
  also have "\<dots> = [c_maps (shelfCats ! 0) ! 0, twoDoc, c_maps (shelfCats ! 0) ! 2]"
    using i(4,5) i1 l3 by simp
  finally have mp: "c_maps d' = [c_maps (shelfCats ! 0) ! 0, twoDoc, c_maps (shelfCats ! 0) ! 2]" .
  have nm: "c_id d' = ''a''" "c_name d' = ''A''" using d'(2,3) by (simp_all add: shelfCats_def)
  have 1: "\<exists>d'. catAt (upsertMapInCategories shelfCats ''a'' twoDoc) [0] = Some d' \<and>
      c_id d' = ''a'' \<and> c_name d' = ''A'' \<and> c_children d' = c_children (shelfCats ! 0) \<and>
      c_maps d' = [c_maps (shelfCats ! 0) ! 0, twoDoc, c_maps (shelfCats ! 0) ! 2]"
    using d'(1) nm ch mp by blast
  have 2: "catAt (upsertMapInCategories shelfCats ''a'' twoDoc) [0, 0] = catAt shelfCats [0, 0]"
    "catAt (upsertMapInCategories shelfCats ''a'' twoDoc) [1] = catAt shelfCats [1]"
    "catAt (upsertMapInCategories shelfCats ''a'' twoDoc) [2] = None"
    "catAt (upsertMapInCategories shelfCats ''a'' (twoDoc\<lparr>m_name := ''Four''\<rparr>)) [0] =
       Some (Category ''a'' ''A'' (twoDoc\<lparr>m_name := ''Four''\<rparr> # c_maps (shelfCats ! 0))
         (c_children (shelfCats ! 0)))"
    by (simp_all add: shelfCats_def upsertMapInCategories_def upsertMaps_def twoDoc_def kids_def)
  from a n 1 2 show ?thesis by blast
qed

text \<open>
  With two top-level categories of the given id, both get the document: the map list of a
  category other than the one \<^verbatim>\<open>findCategoryById\<close> returns is changed. The category
  of that id inside the first one is left as it is.
\<close>

theorem upsertMapInCategories_same_id_counterexample:
  "findCategoryById twinCats ''a'' = Some (twinCats ! 0) \<and>
   upsertMapInCategories twinCats ''a'' newDoc =
     [Category ''a'' ''First'' [newDoc] (Some [Category ''a'' ''Inner'' [] (Some [])]),
      Category ''a'' ''Second'' [newDoc] (Some [])] \<and>
   c_maps (twinCats ! 1) = [] \<and>
   c_maps (upsertMapInCategories twinCats ''a'' newDoc ! 1) = [newDoc] \<and>
   [newDoc] \<noteq> c_maps (twinCats ! 1)"
  by (simp add: twinCats_def upsertMapInCategories_def upsertMaps_def)

lemma uniqueMapName_free:
  "\<not> list_ex (\<lambda>m. m_name m = mapNameRoot base) maps \<Longrightarrow> uniqueMapName maps base = mapNameRoot base"
  by (simp add: uniqueMapName_def Let_def)

lemma uniqueMapName_taken:
  "list_ex (\<lambda>m. m_name m = mapNameRoot base) maps \<Longrightarrow>
     \<exists>i\<ge>2. uniqueMapName maps base = suffixed (mapNameRoot base) i \<and>
        \<not> list_ex (\<lambda>m. m_name m = suffixed (mapNameRoot base) i) maps \<and>
        (\<forall>j. 2 \<le> j \<and> j < i \<longrightarrow> list_ex (\<lambda>m. m_name m = suffixed (mapNameRoot base) j) maps)"
  using nextFree_spec [of 2 maps "mapNameRoot base"]
  by (intro exI [of _ "nextFree maps (mapNameRoot base) 2"]) (simp add: uniqueMapName_def Let_def)

text \<open>
  C5, as amended. When the tree has a category with the given id, \<^verbatim>\<open>renameMapInTree\<close>
  leaves it in place with its id and name, and every map of it with the given map id gets the
  same new name (and the time stamp), the other maps being unchanged. The new name is what
  \<^verbatim>\<open>uniqueMapName\<close> returns for the maps of the category other than the renamed one and
  for the trimmed requested name, or the literal \<^verbatim>\<open>(unnamed map)\<close> when trimming leaves
  nothing. So when no other map has the root of the requested name (the name without its
  numbered suffix), the new name is that root, whatever the renamed map is called and even
  when another map has the requested name itself; and when another map has the root, the new
  name is the root with the smallest suffix from 2 on that no other map has.
\<close>

theorem renameMapInTree_spec:
  "findCategoryById tree catId = Some c \<Longrightarrow>
     (\<exists>c'. findCategoryById (renameMapInTree now tree catId mapId newName) catId = Some c' \<and>
        c_id c' = c_id c \<and> c_name c' = c_name c \<and>
        c_maps c' = map (\<lambda>m. if m_id m = mapId
                              then m\<lparr>m_name := renamedName (c_maps c) mapId newName, m_updatedAt := now\<rparr>
                              else m) (c_maps c)) \<and>
     renamedName (c_maps c) mapId newName =
       uniqueMapName (filter (\<lambda>m. m_id m \<noteq> mapId) (c_maps c))
         (if trim newName = [] then ''(unnamed map)'' else trim newName) \<and>
     ((\<forall>m\<in>set (c_maps c). m_id m \<noteq> mapId \<longrightarrow>
          m_name m \<noteq> mapNameRoot (if trim newName = [] then ''(unnamed map)'' else trim newName)) \<longrightarrow>
        renamedName (c_maps c) mapId newName =
          mapNameRoot (if trim newName = [] then ''(unnamed map)'' else trim newName)) \<and>
     ((\<exists>m\<in>set (c_maps c). m_id m \<noteq> mapId \<and>
          m_name m = mapNameRoot (if trim newName = [] then ''(unnamed map)'' else trim newName)) \<longrightarrow>
        (\<exists>i\<ge>2. renamedName (c_maps c) mapId newName =
             suffixed (mapNameRoot (if trim newName = [] then ''(unnamed map)'' else trim newName)) i \<and>
           (\<forall>m\<in>set (c_maps c). m_id m \<noteq> mapId \<longrightarrow>
              m_name m \<noteq> suffixed (mapNameRoot (if trim newName = [] then ''(unnamed map)'' else trim newName)) i) \<and>
           (\<forall>j. 2 \<le> j \<and> j < i \<longrightarrow>
              (\<exists>m\<in>set (c_maps c). m_id m \<noteq> mapId \<and>
                 m_name m = suffixed (mapNameRoot (if trim newName = [] then ''(unnamed map)'' else trim newName)) j))))"
proof -
  assume f: "findCategoryById tree catId = Some c"
  let ?base = "if trim newName = [] then ''(unnamed map)'' else trim newName"
  let ?others = "filter (\<lambda>m. m_id m \<noteq> mapId) (c_maps c)"
  let ?upd = "\<lambda>c. let base = (if trim newName = [] then ''(unnamed map)'' else trim newName);
                name = uniqueMapName (filter (\<lambda>m. m_id m \<noteq> mapId) (c_maps c)) base;
                maps = map (\<lambda>m. if m_id m = mapId
                                   then m\<lparr>m_name := name, m_updatedAt := now\<rparr> else m) (c_maps c)
            in Category (c_id c) (c_name c) maps (c_children c)"
  have pres: "\<forall>c. c_id c = catId \<longrightarrow> c_id (?upd c) = catId" by (simp add: Let_def)
  have id: "c_id c = catId" using f by (rule findCategoryById_Some_id)
  have 1: "\<exists>c'. findCategoryById (renameMapInTree now tree catId mapId newName) catId = Some c' \<and>
        c_id c' = c_id c \<and> c_name c' = c_name c \<and>
        c_maps c' = map (\<lambda>m. if m_id m = mapId
                              then m\<lparr>m_name := renamedName (c_maps c) mapId newName, m_updatedAt := now\<rparr>
                              else m) (c_maps c)"
    unfolding renameMapInTree_def findCategoryById_updateCategory [OF pres] f
    by (simp add: Let_def renamedName_def)
  have 2: "(\<forall>m\<in>set (c_maps c). m_id m \<noteq> mapId \<longrightarrow> m_name m \<noteq> mapNameRoot ?base) \<longrightarrow>
        renamedName (c_maps c) mapId newName = mapNameRoot ?base"
  proof
    assume "\<forall>m\<in>set (c_maps c). m_id m \<noteq> mapId \<longrightarrow> m_name m \<noteq> mapNameRoot ?base"
    then have "\<not> list_ex (\<lambda>m. m_name m = mapNameRoot ?base) ?others"
      by (auto simp: list_ex_iff)
    from uniqueMapName_free [OF this] show "renamedName (c_maps c) mapId newName = mapNameRoot ?base"
      by (simp add: renamedName_def)
  qed
  have 3: "(\<exists>m\<in>set (c_maps c). m_id m \<noteq> mapId \<and> m_name m = mapNameRoot ?base) \<longrightarrow>
        (\<exists>i\<ge>2. renamedName (c_maps c) mapId newName = suffixed (mapNameRoot ?base) i \<and>
           (\<forall>m\<in>set (c_maps c). m_id m \<noteq> mapId \<longrightarrow> m_name m \<noteq> suffixed (mapNameRoot ?base) i) \<and>
           (\<forall>j. 2 \<le> j \<and> j < i \<longrightarrow>
              (\<exists>m\<in>set (c_maps c). m_id m \<noteq> mapId \<and> m_name m = suffixed (mapNameRoot ?base) j)))"
  proof
    assume "\<exists>m\<in>set (c_maps c). m_id m \<noteq> mapId \<and> m_name m = mapNameRoot ?base"
    then have "list_ex (\<lambda>m. m_name m = mapNameRoot ?base) ?others"
      by (auto simp: list_ex_iff)
    from uniqueMapName_taken [OF this] obtain i where i: "2 \<le> i"
      "uniqueMapName ?others ?base = suffixed (mapNameRoot ?base) i"
      "\<not> list_ex (\<lambda>m. m_name m = suffixed (mapNameRoot ?base) i) ?others"
      "\<forall>j. 2 \<le> j \<and> j < i \<longrightarrow> list_ex (\<lambda>m. m_name m = suffixed (mapNameRoot ?base) j) ?others"
      by blast
    show "\<exists>i\<ge>2. renamedName (c_maps c) mapId newName = suffixed (mapNameRoot ?base) i \<and>
           (\<forall>m\<in>set (c_maps c). m_id m \<noteq> mapId \<longrightarrow> m_name m \<noteq> suffixed (mapNameRoot ?base) i) \<and>
           (\<forall>j. 2 \<le> j \<and> j < i \<longrightarrow>
              (\<exists>m\<in>set (c_maps c). m_id m \<noteq> mapId \<and> m_name m = suffixed (mapNameRoot ?base) j))"
    proof (intro exI [of _ i] conjI allI impI)
      show "2 \<le> i" by (rule i(1))
      show "renamedName (c_maps c) mapId newName = suffixed (mapNameRoot ?base) i"
        using i(2) by (simp add: renamedName_def)
      show "\<forall>m\<in>set (c_maps c). m_id m \<noteq> mapId \<longrightarrow> m_name m \<noteq> suffixed (mapNameRoot ?base) i"
        using i(3) by (auto simp: list_ex_iff)
    next
      fix j assume "2 \<le> j \<and> j < i"
      with i(4) have "list_ex (\<lambda>m. m_name m = suffixed (mapNameRoot ?base) j) ?others" by blast
      then show "\<exists>m\<in>set (c_maps c). m_id m \<noteq> mapId \<and> m_name m = suffixed (mapNameRoot ?base) j"
        by (auto simp: list_ex_iff)
    qed
  qed
  from 1 2 3 show ?thesis by (simp add: renamedName_def)
qed

theorem renameMapInTree_spec_witness:
  "findCategoryById catsForRename ''cx'' = Some (catsForRename ! 0) \<and>
   (\<exists>c'. findCategoryById (renameMapInTree (Fin 5) catsForRename ''cx'' ''m2'' '' Map '') ''cx'' = Some c' \<and>
      c_id c' = ''cx'' \<and> c_name c' = ''C'' \<and>
      c_maps c' =
        [\<lparr>m_id = ''m1'', m_name = ''Map'', m_nodes = [], m_updatedAt = Fin 0\<rparr>,
         \<lparr>m_id = ''m2'', m_name = ''Map (2)'', m_nodes = [], m_updatedAt = Fin 5\<rparr>]) \<and>
   renamedName (c_maps (catsForRename ! 0)) ''m2'' '' Map '' = ''Map (2)'' \<and>
   renamedName (c_maps (catsForRename ! 0)) ''m1'' ''Map (2)'' = ''Map'' \<and>
   renamedName (c_maps (catsForRename ! 0)) ''m1'' ''  '' = ''(unnamed map)''"
proof -
  have f: "findCategoryById catsForRename ''cx'' = Some (catsForRename ! 0)"
    by (simp add: catsForRename_def)
  have e1: "renamedName (c_maps (catsForRename ! 0)) ''m2'' '' Map '' = ''Map (2)''"
    by code_simp
  have e2: "renamedName (c_maps (catsForRename ! 0)) ''m1'' ''Map (2)'' = ''Map''"
    by code_simp
  have e3: "renamedName (c_maps (catsForRename ! 0)) ''m1'' ''  '' = ''(unnamed map)''"
    by code_simp
  from renameMapInTree_spec [OF f, of "Fin 5" "''m2''" "'' Map ''"]
  obtain c' where c': "findCategoryById (renameMapInTree (Fin 5) catsForRename ''cx'' ''m2'' '' Map '') ''cx'' = Some c'"
    "c_id c' = c_id (catsForRename ! 0)" "c_name c' = c_name (catsForRename ! 0)"
    "c_maps c' = map (\<lambda>m. if m_id m = ''m2''
         then m\<lparr>m_name := renamedName (c_maps (catsForRename ! 0)) ''m2'' '' Map '', m_updatedAt := Fin 5\<rparr>
         else m) (c_maps (catsForRename ! 0))"
    by blast
  have m: "c_maps c' =
        [\<lparr>m_id = ''m1'', m_name = ''Map'', m_nodes = [], m_updatedAt = Fin 0\<rparr>,
         \<lparr>m_id = ''m2'', m_name = ''Map (2)'', m_nodes = [], m_updatedAt = Fin 5\<rparr>]"
    unfolding c'(4) e1 by (simp add: catsForRename_def)
  have i: "c_id c' = ''cx''" "c_name c' = ''C''"
    using c'(2,3) by (simp_all add: catsForRename_def)
  from f c'(1) m i e1 e2 e3 show ?thesis by blast
qed

text \<open>
  The requested name \<^verbatim>\<open>X (2)\<close> is the name of a sibling, but no sibling is named
  \<^verbatim>\<open>X\<close>: the renamed map is called \<^verbatim>\<open>X\<close>, the bare root, and not a name with
  the next free suffix.
\<close>

theorem renameMapInTree_suffixed_request_counterexample:
  "m_id (c_maps (suffixCats ! 0) ! 1) = ''m2'' \<and> m_name (c_maps (suffixCats ! 0) ! 1) = ''X (2)'' \<and>
   renameMapInTree (Fin 5) suffixCats ''cx'' ''m1'' ''X (2)'' =
     [Category ''cx'' ''C''
        [\<lparr>m_id = ''m1'', m_name = ''X'', m_nodes = [], m_updatedAt = Fin 5\<rparr>,
         \<lparr>m_id = ''m2'', m_name = ''X (2)'', m_nodes = [], m_updatedAt = Fin 0\<rparr>] (Some [])] \<and>
   ''X'' \<noteq> ''X (2)'' \<and> ''X'' \<noteq> ''X (3)''"
proof -
  have "renameMapInTree (Fin 5) suffixCats ''cx'' ''m1'' ''X (2)'' =
     [Category ''cx'' ''C''
        [\<lparr>m_id = ''m1'', m_name = ''X'', m_nodes = [], m_updatedAt = Fin 5\<rparr>,
         \<lparr>m_id = ''m2'', m_name = ''X (2)'', m_nodes = [], m_updatedAt = Fin 0\<rparr>] (Some [])]"
    by code_simp
  then show ?thesis by (simp add: suffixCats_def)
qed

section \<open>Children and roots index: roots and children lists\<close>

lemma parentKey_None: "parentKey p = None \<longleftrightarrow> noParent p"
  by (auto simp: parentKey_def noParent_def split: option.splits)

lemma parentKey_Some: "parentKey p = Some s \<longleftrightarrow> p = Some s \<and> s \<noteq> []"
  by (auto simp: parentKey_def split: option.splits)

lemma indexStep_apply:
  "indexStep h n bp key =
     (if parentKey (n_parentId (h n)) = key then Some (getOrEmpty bp key @ [n]) else bp key)"
  by (auto simp: indexStep_def Let_def getOrEmpty_def)

lemma index_fold:
  "fold (indexStep h) nodes bp0 key =
     (if filter (\<lambda>n. parentKey (n_parentId (h n)) = key) nodes = [] then bp0 key
      else Some (getOrEmpty bp0 key @ filter (\<lambda>n. parentKey (n_parentId (h n)) = key) nodes))"
proof (induction nodes arbitrary: bp0)
  case Nil
  then show ?case by simp
next
  case (Cons n nodes)
  have "fold (indexStep h) (n # nodes) bp0 key = fold (indexStep h) nodes (indexStep h n bp0) key"
    by simp
  also have "\<dots> =
     (if filter (\<lambda>n. parentKey (n_parentId (h n)) = key) nodes = [] then indexStep h n bp0 key
      else Some (getOrEmpty (indexStep h n bp0) key @
                 filter (\<lambda>n. parentKey (n_parentId (h n)) = key) nodes))"
    by (rule Cons.IH)
  also have "\<dots> =
     (if filter (\<lambda>n. parentKey (n_parentId (h n)) = key) (n # nodes) = [] then bp0 key
      else Some (getOrEmpty bp0 key @ filter (\<lambda>n. parentKey (n_parentId (h n)) = key) (n # nodes)))"
    unfolding getOrEmpty_def indexStep_apply by (simp add: getOrEmpty_def)
  finally show ?case .
qed

lemma rootStep_alt:
  "rootStep h ids n roots =
     (if isRoot h ids n then (if n \<notin> set roots then roots @ [n] else roots) else roots)"
  by (auto simp: rootStep_def isRoot_def noParent_def split: option.splits)

lemma roots_fold_set:
  "set (fold (rootStep h ids) ns rs) = set rs \<union> {n \<in> set ns. isRoot h ids n}"
proof (induction ns arbitrary: rs)
  case Nil
  then show ?case by simp
next
  case (Cons n ns)
  have "set (fold (rootStep h ids) (n # ns) rs) = set (rootStep h ids n rs) \<union> {n \<in> set ns. isRoot h ids n}"
    using Cons.IH [of "rootStep h ids n rs"] by simp
  also have "\<dots> = set rs \<union> {m \<in> set (n # ns). isRoot h ids m}"
    unfolding rootStep_alt by auto
  finally show ?case .
qed

lemma roots_fold_distinct:
  "distinct rs \<Longrightarrow> distinct (fold (rootStep h ids) ns rs)"
proof (induction ns arbitrary: rs)
  case Nil
  then show ?case by simp
next
  case (Cons n ns)
  have "distinct (rootStep h ids n rs)" using Cons.prems unfolding rootStep_alt by simp
  from Cons.IH [OF this] show ?case by simp
qed

lemma buildChildrenMap_store_index:
  "getOrEmpty (fst (buildChildrenMap_store h nodes)) key =
     filter (\<lambda>n. parentKey (n_parentId (h n)) = key) nodes"
  by (simp add: buildChildrenMap_store_def Let_def index_fold getOrEmpty_def)

lemma buildChildrenMap_store_roots:
  "set (snd (buildChildrenMap_store h nodes)) =
     {n \<in> set nodes. isRoot h (set (map (\<lambda>n. n_id (h n)) nodes)) n}"
  "distinct nodes \<Longrightarrow> distinct (snd (buildChildrenMap_store h nodes))"
proof -
  let ?bp = "fst (buildChildrenMap_store h nodes)"
  let ?r0 = "filter (\<lambda>n. noParent (n_parentId (h n))) (getOrEmpty ?bp None)"
  have r0: "?r0 = filter (\<lambda>n. noParent (n_parentId (h n))) nodes"
    by (simp add: buildChildrenMap_store_index parentKey_None)
  have s: "snd (buildChildrenMap_store h nodes) =
     fold (rootStep h (set (map (\<lambda>n. n_id (h n)) nodes))) nodes ?r0"
    by (simp add: buildChildrenMap_store_def Let_def del: set_map)
  show "set (snd (buildChildrenMap_store h nodes)) =
     {n \<in> set nodes. isRoot h (set (map (\<lambda>n. n_id (h n)) nodes)) n}"
    unfolding s roots_fold_set r0 by (auto simp: isRoot_def)
  show "distinct nodes \<Longrightarrow> distinct (snd (buildChildrenMap_store h nodes))"
    unfolding s r0 by (rule roots_fold_distinct) simp
qed


lemma distinct_singleton: "distinct xs \<Longrightarrow> set xs = {a} \<Longrightarrow> xs = [a]"
proof (cases xs)
  case Nil
  assume "set xs = {a}" with Nil show ?thesis by simp
next
  case (Cons b ys)
  assume d: "distinct xs" and s: "set xs = {a}"
  from s Cons have b: "b = a" by auto
  from d s Cons b have "set ys \<subseteq> {a}" "a \<notin> set ys" by auto
  then have "ys = []" by (cases ys) auto
  with Cons b show ?thesis by simp
qed

lemma length_filter_neq_upt: "r < n \<Longrightarrow> length (filter (\<lambda>j. j \<noteq> r) [0..<n]) = n - 1"
proof (induction n)
  case 0
  then show ?case by simp
next
  case (Suc n)
  show ?case
  proof (cases "r = n")
    case True
    then have "filter (\<lambda>j. j \<noteq> r) [0..<n] = [0..<n]" by (intro filter_True) simp
    with True show ?thesis by simp
  next
    case False
    with Suc have "length (filter (\<lambda>j. j \<noteq> r) [0..<n]) = n - 1" "0 < n" by auto
    with False show ?thesis by simp
  qed
qed

lemma ids_of_list:
  "set (map (\<lambda>n. n_id (nodeStore nodes n)) [0..<length nodes]) = n_id ` set nodes"
proof -
  have "map (\<lambda>n. n_id (nodeStore nodes n)) [0..<length nodes] =
      map n_id (map ((!) nodes) [0..<length nodes])"
    by (simp add: nodeStore_def)
  also have "\<dots> = map n_id nodes" by (simp only: map_nth)
  finally show ?thesis by simp
qed

lemma buildChildrenMap_roots:
  "set (snd (buildChildrenMap nodes)) =
     {i. i < length nodes \<and> isRoot (nodeStore nodes) (n_id ` set nodes) i}"
  "distinct (snd (buildChildrenMap nodes))"
  unfolding buildChildrenMap_def
  using buildChildrenMap_store_roots [where h = "nodeStore nodes" and nodes = "[0..<length nodes]"]
  by (simp_all only: ids_of_list) auto

lemma buildChildrenMap_index:
  "getOrEmpty (fst (buildChildrenMap nodes)) key =
     filter (\<lambda>i. parentKey (n_parentId (nodes ! i)) = key) [0..<length nodes]"
proof -
  have "getOrEmpty (fst (buildChildrenMap nodes)) key =
     filter (\<lambda>i. parentKey (n_parentId (nodeStore nodes i)) = key) [0..<length nodes]"
    unfolding buildChildrenMap_def by (rule buildChildrenMap_store_index)
  also have "\<dots> = filter (\<lambda>i. parentKey (n_parentId (nodes ! i)) = key) [0..<length nodes]"
    by (rule filter_cong) (simp_all add: nodeStore_def)
  finally show ?thesis .
qed

text \<open>
  C4, as amended. The roots that \<^verbatim>\<open>buildChildrenMap\<close> returns are exactly the nodes
  whose parentId is null or absent (or the empty string, which is falsy too) and the nodes
  whose parentId is the id of no node of the input, and no node is listed twice. The index
  maps a key to the nodes with that parent key, in input order. In particular, when exactly
  one node has no parentId, its id is not the empty string, and every other node has that
  id for its parentId, then that node is the only root and its children list is all the
  other nodes in input order, so of size count - 1.
\<close>

theorem buildChildrenMap_spec:
  "set (snd (buildChildrenMap nodes)) =
     {i. i < length nodes \<and>
         (n_parentId (nodes ! i) = None \<or> n_parentId (nodes ! i) = Some [] \<or>
          (\<exists>p. n_parentId (nodes ! i) = Some p \<and> p \<notin> n_id ` set nodes))} \<and>
   distinct (snd (buildChildrenMap nodes)) \<and>
   (\<forall>key. getOrEmpty (fst (buildChildrenMap nodes)) key =
      filter (\<lambda>i. parentKey (n_parentId (nodes ! i)) = key) [0..<length nodes]) \<and>
   (\<forall>r<length nodes.
      n_parentId (nodes ! r) = None \<and> n_id (nodes ! r) \<noteq> [] \<and>
      (\<forall>j<length nodes. j \<noteq> r \<longrightarrow> n_parentId (nodes ! j) = Some (n_id (nodes ! r))) \<longrightarrow>
      snd (buildChildrenMap nodes) = [r] \<and>
      getOrEmpty (fst (buildChildrenMap nodes)) (Some (n_id (nodes ! r))) =
        filter (\<lambda>j. j \<noteq> r) [0..<length nodes] \<and>
      length (getOrEmpty (fst (buildChildrenMap nodes)) (Some (n_id (nodes ! r)))) = length nodes - 1)"
proof -
  have a: "set (snd (buildChildrenMap nodes)) =
     {i. i < length nodes \<and>
         (n_parentId (nodes ! i) = None \<or> n_parentId (nodes ! i) = Some [] \<or>
          (\<exists>p. n_parentId (nodes ! i) = Some p \<and> p \<notin> n_id ` set nodes))}"
    unfolding buildChildrenMap_roots(1)
    by (auto simp: isRoot_def noParent_def nodeStore_def split: option.splits)
  have b: "distinct (snd (buildChildrenMap nodes))" by (rule buildChildrenMap_roots(2))
  have c: "\<forall>key. getOrEmpty (fst (buildChildrenMap nodes)) key =
      filter (\<lambda>i. parentKey (n_parentId (nodes ! i)) = key) [0..<length nodes]"
    by (simp add: buildChildrenMap_index)
  have d: "\<forall>r<length nodes.
      n_parentId (nodes ! r) = None \<and> n_id (nodes ! r) \<noteq> [] \<and>
      (\<forall>j<length nodes. j \<noteq> r \<longrightarrow> n_parentId (nodes ! j) = Some (n_id (nodes ! r))) \<longrightarrow>
      snd (buildChildrenMap nodes) = [r] \<and>
      getOrEmpty (fst (buildChildrenMap nodes)) (Some (n_id (nodes ! r))) =
        filter (\<lambda>j. j \<noteq> r) [0..<length nodes] \<and>
      length (getOrEmpty (fst (buildChildrenMap nodes)) (Some (n_id (nodes ! r)))) = length nodes - 1"
  proof (intro allI impI)
    fix r
    assume r: "r < length nodes"
    assume h: "n_parentId (nodes ! r) = None \<and> n_id (nodes ! r) \<noteq> [] \<and>
      (\<forall>j<length nodes. j \<noteq> r \<longrightarrow> n_parentId (nodes ! j) = Some (n_id (nodes ! r)))"
    have idr: "n_id (nodes ! r) \<in> n_id ` set nodes" using r by simp
    have "set (snd (buildChildrenMap nodes)) = {r}"
    proof
      show "set (snd (buildChildrenMap nodes)) \<subseteq> {r}"
      proof
        fix i assume "i \<in> set (snd (buildChildrenMap nodes))"
        with a have i: "i < length nodes" and
          ro: "n_parentId (nodes ! i) = None \<or> n_parentId (nodes ! i) = Some [] \<or>
            (\<exists>p. n_parentId (nodes ! i) = Some p \<and> p \<notin> n_id ` set nodes)" by auto
        show "i \<in> {r}"
        proof (rule ccontr)
          assume "i \<notin> {r}"
          with h i have "n_parentId (nodes ! i) = Some (n_id (nodes ! r))" by simp
          with ro h idr show False by auto
        qed
      qed
      show "{r} \<subseteq> set (snd (buildChildrenMap nodes))" using a r h by simp
    qed
    with b have 1: "snd (buildChildrenMap nodes) = [r]" by (rule distinct_singleton)
    have 2: "getOrEmpty (fst (buildChildrenMap nodes)) (Some (n_id (nodes ! r))) =
        filter (\<lambda>j. j \<noteq> r) [0..<length nodes]"
      unfolding buildChildrenMap_index
    proof (rule filter_cong [OF refl])
      fix j assume "j \<in> set [0..<length nodes]"
      then have j: "j < length nodes" by simp
      show "(parentKey (n_parentId (nodes ! j)) = Some (n_id (nodes ! r))) = (j \<noteq> r)"
        using h j by (cases "j = r") (auto simp: parentKey_def)
    qed
    from 1 2 length_filter_neq_upt [OF r]
    show "snd (buildChildrenMap nodes) = [r] \<and>
      getOrEmpty (fst (buildChildrenMap nodes)) (Some (n_id (nodes ! r))) =
        filter (\<lambda>j. j \<noteq> r) [0..<length nodes] \<and>
      length (getOrEmpty (fst (buildChildrenMap nodes)) (Some (n_id (nodes ! r)))) = length nodes - 1"
      by simp
  qed
  from a b c d show ?thesis by blast
qed

theorem buildChildrenMap_spec_witness:
  "length sample = 3 \<and> n_parentId (sample ! 0) = None \<and> n_id (sample ! 0) = ''A'' \<and>
   n_parentId (sample ! 1) = Some ''A'' \<and> n_parentId (sample ! 2) = Some ''A'' \<and>
   snd (buildChildrenMap sample) = [0] \<and>
   getOrEmpty (fst (buildChildrenMap sample)) (Some ''A'') = [1, 2]"
proof -
  have l: "length sample = 3" by (simp add: sample_def)
  have p: "n_parentId (sample ! 0) = None" "n_id (sample ! 0) = ''A''"
    "n_parentId (sample ! 1) = Some ''A''" "n_parentId (sample ! 2) = Some ''A''"
    by (simp_all add: sample_def)
  have o: "\<forall>j<length sample. j \<noteq> 0 \<longrightarrow> n_parentId (sample ! j) = Some (n_id (sample ! 0))"
  proof (intro allI impI)
    fix j assume "j < length sample" "j \<noteq> 0"
    then have "j = 1 \<or> j = 2" using l by auto
    then show "n_parentId (sample ! j) = Some (n_id (sample ! 0))" using p by auto
  qed
  have f: "filter (\<lambda>j. j \<noteq> 0) [0..<3] = [1, 2::nat]" by (simp add: upt_rec)
  have z: "0 < length sample" using l by simp
  have hyp: "n_parentId (sample ! 0) = None \<and> n_id (sample ! 0) \<noteq> [] \<and>
      (\<forall>j<length sample. j \<noteq> 0 \<longrightarrow> n_parentId (sample ! j) = Some (n_id (sample ! 0)))"
    using p o by simp
  from buildChildrenMap_spec [of sample, THEN conjunct2, THEN conjunct2, THEN conjunct2,
      rule_format, OF z hyp]
  have "snd (buildChildrenMap sample) = [0]"
    "getOrEmpty (fst (buildChildrenMap sample)) (Some (n_id (sample ! 0))) =
       filter (\<lambda>j. j \<noteq> 0) [0..<length sample]"
    by blast+
  with l p f show ?thesis by simp
qed

text \<open>
  When the id of the only node without a parentId is the empty string, the parentId of
  the other nodes is falsy: they are roots as well, and the index has no children for the
  empty id.
\<close>

theorem buildChildrenMap_empty_id_counterexample:
  "length emptyIdNodes = 2 \<and> n_parentId (emptyIdNodes ! 0) = None \<and>
   n_parentId (emptyIdNodes ! 1) = Some (n_id (emptyIdNodes ! 0)) \<and>
   snd (buildChildrenMap emptyIdNodes) = [0, 1] \<and>
   getOrEmpty (fst (buildChildrenMap emptyIdNodes)) (Some (n_id (emptyIdNodes ! 0))) = []"
proof -
  have u: "[0..<2] = [0, 1::nat]" by (simp add: upt_rec)
  have "snd (buildChildrenMap emptyIdNodes) = [0, 1]"
    by (simp add: buildChildrenMap_def buildChildrenMap_store_def emptyIdNodes_def u Let_def
        indexStep_def rootStep_def getOrEmpty_def parentKey_def noParent_def nodeStore_def)
  moreover have "getOrEmpty (fst (buildChildrenMap emptyIdNodes)) (Some (n_id (emptyIdNodes ! 0))) = []"
    by (simp add: buildChildrenMap_index emptyIdNodes_def u parentKey_def)
  ultimately show ?thesis by (simp add: emptyIdNodes_def)
qed

section \<open>Auto layout: placement, centring, termination\<close>

lemma xyOnly_refl: "xyOnly h h"
  unfolding xyOnly_def
proof
  fix r
  have "h r = (h r)\<lparr>n_x := n_x (h r), n_y := n_y (h r)\<rparr>" by simp
  then show "\<exists>X Y. h r = (h r)\<lparr>n_x := X, n_y := Y\<rparr>" by blast
qed

lemma xyOnly_trans: "xyOnly h1 h2 \<Longrightarrow> xyOnly h2 h3 \<Longrightarrow> xyOnly h1 h3"
  unfolding xyOnly_def
proof
  fix r
  assume a: "\<forall>r. \<exists>X Y. h2 r = (h1 r)\<lparr>n_x := X, n_y := Y\<rparr>"
    and b: "\<forall>r. \<exists>X Y. h3 r = (h2 r)\<lparr>n_x := X, n_y := Y\<rparr>"
  from a obtain X Y where 1: "h2 r = (h1 r)\<lparr>n_x := X, n_y := Y\<rparr>" by blast
  from b obtain X' Y' where 2: "h3 r = (h2 r)\<lparr>n_x := X', n_y := Y'\<rparr>" by blast
  from 1 2 have "h3 r = (h1 r)\<lparr>n_x := X', n_y := Y'\<rparr>" by simp
  then show "\<exists>X Y. h3 r = (h1 r)\<lparr>n_x := X, n_y := Y\<rparr>" by blast
qed

lemma xyOnly_write: "xyOnly h (h(n := (h n)\<lparr>n_x := X, n_y := Y\<rparr>))"
  unfolding xyOnly_def
proof
  fix r
  show "\<exists>X' Y'. (h(n := (h n)\<lparr>n_x := X, n_y := Y\<rparr>)) r = (h r)\<lparr>n_x := X', n_y := Y'\<rparr>"
  proof (cases "r = n")
    case True
    then show ?thesis by auto
  next
    case False
    have "h r = (h r)\<lparr>n_x := n_x (h r), n_y := n_y (h r)\<rparr>" by simp
    with False show ?thesis by (metis fun_upd_other)
  qed
qed

lemma xyOnly_ids: "xyOnly h h' \<Longrightarrow> idsOf h' = idsOf h"
  unfolding xyOnly_def idsOf_def
proof
  fix r assume a: "\<forall>r. \<exists>X Y. h' r = (h r)\<lparr>n_x := X, n_y := Y\<rparr>"
  then obtain X Y where "h' r = (h r)\<lparr>n_x := X, n_y := Y\<rparr>" by blast
  then show "n_id (h' r) = n_id (h r)" by simp
qed

lemma step2_refl: "step2 h g h g"
  by (simp add: step2_def xyOnly_refl)

lemma step2_trans: "step2 h g h1 g1 \<Longrightarrow> step2 h1 g1 h2 g2 \<Longrightarrow> step2 h g h2 g2"
  unfolding step2_def by (metis xyOnly_trans)

lemma wrote_keep: "wrote (h1 c) (g1 c) \<Longrightarrow> step2 h1 g1 h2 g2 \<Longrightarrow> wrote (h2 c) (g2 c)"
  unfolding step2_def by metis

lemma step2_write:
  "isFinite X \<Longrightarrow> isFinite Y \<Longrightarrow>
   step2 h g (h(n := (h n)\<lparr>n_x := X, n_y := Y\<rparr>)) (g(n := (g n)\<lparr>n_x := X, n_y := Y\<rparr>))"
  by (simp add: step2_def xyOnly_write wrote_def finXY_def)

lemma mapM_rel:
  assumes "mapM f as (h, cur) = Some (bs, (h', cur'))"
    and "idsOf h = idf" and "idsOf g = idf"
    and each: "\<And>a h cur b h1 cur1 g. a \<in> set as \<Longrightarrow> f a (h, cur) = Some (b, (h1, cur1)) \<Longrightarrow>
        idsOf h = idf \<Longrightarrow> idsOf g = idf \<Longrightarrow>
        \<exists>g1. f a (g, cur) = Some (b, (g1, cur1)) \<and> P b \<and> step2 h g h1 g1 \<and>
          (\<forall>c. (a, c) \<in> R\<^sup>* \<longrightarrow> wrote (h1 c) (g1 c))"
  shows "\<exists>g'. mapM f as (g, cur) = Some (bs, (g', cur')) \<and> list_all P bs \<and>
      length bs = length as \<and> step2 h g h' g' \<and>
      (\<forall>a\<in>set as. \<forall>c. (a, c) \<in> R\<^sup>* \<longrightarrow> wrote (h' c) (g' c))"
  using assms
proof (induction as arbitrary: h cur g bs)
  case Nil
  then show ?case by (simp add: step2_refl)
next
  case (Cons a as)
  from Cons.prems(1) obtain b h1 cur1 bs1 where
    fa: "f a (h, cur) = Some (b, (h1, cur1))" and
    rest: "mapM f as (h1, cur1) = Some (bs1, (h', cur'))" and bs: "bs = b # bs1"
    by (auto split: option.splits)
  from Cons.prems(4) [OF _ fa Cons.prems(2,3)] obtain g1 where
    ga: "f a (g, cur) = Some (b, (g1, cur1))" and pb: "P b" and st: "step2 h g h1 g1"
    and got: "\<forall>c. (a, c) \<in> R\<^sup>* \<longrightarrow> wrote (h1 c) (g1 c)" by auto
  from st have i1: "idsOf h1 = idf" "idsOf g1 = idf"
    using Cons.prems(2,3) by (auto simp: step2_def dest: xyOnly_ids)
  have "\<exists>g'. mapM f as (g1, cur1) = Some (bs1, (g', cur')) \<and> list_all P bs1 \<and>
      length bs1 = length as \<and> step2 h1 g1 h' g' \<and>
      (\<forall>a\<in>set as. \<forall>c. (a, c) \<in> R\<^sup>* \<longrightarrow> wrote (h' c) (g' c))"
  proof (rule Cons.IH [OF rest i1])
    fix a' h cur b h1 cur1 g
    assume "a' \<in> set as" "f a' (h, cur) = Some (b, (h1, cur1))" "idsOf h = idf" "idsOf g = idf"
    then show "\<exists>g1. f a' (g, cur) = Some (b, (g1, cur1)) \<and> P b \<and> step2 h g h1 g1 \<and>
          (\<forall>c. (a', c) \<in> R\<^sup>* \<longrightarrow> wrote (h1 c) (g1 c))"
      using Cons.prems(4) [of a' h cur b h1 cur1 g] by simp
  qed
  then obtain g' where g': "mapM f as (g1, cur1) = Some (bs1, (g', cur'))" "list_all P bs1"
    "length bs1 = length as" "step2 h1 g1 h' g'"
    "\<forall>a\<in>set as. \<forall>c. (a, c) \<in> R\<^sup>* \<longrightarrow> wrote (h' c) (g' c)" by blast
  have "mapM f (a # as) (g, cur) = Some (bs, (g', cur'))" using ga g'(1) bs by simp
  moreover have "list_all P bs" using pb g'(2) bs by simp
  moreover have "length bs = length (a # as)" using g'(3) bs by simp
  moreover have "step2 h g h' g'" using st g'(4) by (rule step2_trans)
  moreover have "\<forall>a'\<in>set (a # as). \<forall>c. (a', c) \<in> R\<^sup>* \<longrightarrow> wrote (h' c) (g' c)"
    using got g'(4,5) by (auto intro: wrote_keep)
  ultimately show ?case by blast
qed

lemma isFinite_Fin: "isFinite a \<longleftrightarrow> (\<exists>r. a = Fin r)"
  by (cases a) auto

lemma all_finite_map: "list_all isFinite xs \<Longrightarrow> \<exists>rs. xs = map Fin rs"
proof (induction xs)
  case Nil
  then show ?case by simp
next
  case (Cons a xs)
  then obtain r rs where "a = Fin r" "xs = map Fin rs" by (auto simp: isFinite_Fin)
  then have "a # xs = map Fin (r # rs)" by simp
  then show ?case by (rule exI)
qed

lemma Math_min_Fin: "Math_min (map Fin rs) = (if rs = [] then PInf else Fin (Min (set rs)))"
proof (induction rs)
  case Nil
  then show ?case by (simp add: Math_min_def)
next
  case (Cons r rs)
  then show ?case by (cases "rs = []") (auto simp: Math_min_def)
qed

lemma Math_max_Fin: "Math_max (map Fin rs) = (if rs = [] then NInf else Fin (Max (set rs)))"
proof (induction rs)
  case Nil
  then show ?case by (simp add: Math_max_def)
next
  case (Cons r rs)
  then show ?case by (cases "rs = []") (auto simp: Math_max_def)
qed

lemma mid_finite:
  "xs \<noteq> [] \<Longrightarrow> list_all isFinite xs \<Longrightarrow> isFinite (jhalf (jadd (Math_min xs) (Math_max xs)))"
proof -
  assume ne: "xs \<noteq> []" and "list_all isFinite xs"
  then obtain rs where "xs = map Fin rs" using all_finite_map by blast
  with ne show ?thesis by (simp add: Math_min_Fin Math_max_Fin)
qed

lemma no_kids_reach:
  "getOrEmpty bp (Some (idf n)) = [] \<Longrightarrow> (n, c) \<in> (kidRel bp idf)\<^sup>* \<Longrightarrow> c = n"
  by (erule converse_rtranclE) (auto simp: kidRel_def)

lemma kids_reach:
  "(n, c) \<in> (kidRel bp idf)\<^sup>* \<Longrightarrow>
     c = n \<or> (\<exists>a\<in>set (getOrEmpty bp (Some (idf n))). (a, c) \<in> (kidRel bp idf)\<^sup>*)"
  by (erule converse_rtranclE) (auto simp: kidRel_def)

lemma place_rel:
  "place k bp n d (h, cur) = Some (p, (h', cur')) \<Longrightarrow> idsOf h = idf \<Longrightarrow> idsOf g = idf \<Longrightarrow>
     \<exists>g'. place k bp n d (g, cur) = Some (p, (g', cur')) \<and>
       (isFinite (fst p) \<and> isFinite (snd p)) \<and> step2 h g h' g' \<and>
       (\<forall>c. (n, c) \<in> (kidRel bp idf)\<^sup>* \<longrightarrow> wrote (h' c) (g' c))"
proof (induction k arbitrary: n d h cur p h' cur' g)
  case 0
  then show ?case by simp
next
  case (Suc k)
  let ?ch = "getOrEmpty bp (Some (idf n))"
  have "idsOf h n = idf n" "idsOf g n = idf n" using Suc.prems(2,3) by simp_all
  then have idn: "n_id (h n) = idf n" "n_id (g n) = idf n"
    by (simp_all add: idsOf_def)
  show ?case
  proof (cases "?ch = []")
    case True
    let ?x = "Fin (of_nat cur * 120)" and ?y = "Fin (of_nat d * 90)"
    from Suc.prems(1) True idn have p: "p = (?x, ?y)"
      and h': "h' = h(n := (h n)\<lparr>n_x := ?x, n_y := ?y\<rparr>)" and c': "cur' = cur + 1"
      by (auto simp: Let_def)
    let ?g' = "g(n := (g n)\<lparr>n_x := ?x, n_y := ?y\<rparr>)"
    have 1: "place (Suc k) bp n d (g, cur) = Some (p, (?g', cur'))"
      using True idn p c' by (simp add: Let_def)
    have 2: "step2 h g h' ?g'" unfolding h' by (rule step2_write) simp_all
    have 3: "\<forall>c. (n, c) \<in> (kidRel bp idf)\<^sup>* \<longrightarrow> wrote (h' c) (?g' c)"
    proof (intro allI impI)
      fix c assume "(n, c) \<in> (kidRel bp idf)\<^sup>*"
      with True have "c = n" by (rule no_kids_reach)
      then show "wrote (h' c) (?g' c)" by (simp add: h' wrote_def finXY_def)
    qed
    from 1 2 3 p show ?thesis by auto
  next
    case False
    from Suc.prems(1) False idn obtain ps h1 cur1 where
      m: "mapM (\<lambda>c. place k bp c (d + 1)) ?ch (h, cur) = Some (ps, (h1, cur1))"
      by (auto simp: Let_def split: option.splits)
    let ?x = "jhalf (jadd (Math_min (map fst ps)) (Math_max (map fst ps)))"
    let ?y = "Fin (of_nat d * 90)"
    from Suc.prems(1) False idn m have p: "p = (?x, ?y)"
      and h': "h' = h1(n := (h1 n)\<lparr>n_x := ?x, n_y := ?y\<rparr>)" and c': "cur' = cur1"
      by (auto simp: Let_def)
    have "\<exists>g1. mapM (\<lambda>c. place k bp c (d + 1)) ?ch (g, cur) = Some (ps, (g1, cur1)) \<and>
        list_all (\<lambda>q. isFinite (fst q) \<and> isFinite (snd q)) ps \<and> length ps = length ?ch \<and>
        step2 h g h1 g1 \<and>
        (\<forall>a\<in>set ?ch. \<forall>c. (a, c) \<in> (kidRel bp idf)\<^sup>* \<longrightarrow> wrote (h1 c) (g1 c))"
    proof (rule mapM_rel [OF m Suc.prems(2,3)])
      fix a h cur b h1 cur1 g
      assume "a \<in> set ?ch" "place k bp a (d + 1) (h, cur) = Some (b, (h1, cur1))"
        "idsOf h = idf" "idsOf g = idf"
      then show "\<exists>g1. place k bp a (d + 1) (g, cur) = Some (b, g1, cur1) \<and>
            (isFinite (fst b) \<and> isFinite (snd b)) \<and> step2 h g h1 g1 \<and>
            (\<forall>c. (a, c) \<in> (kidRel bp idf)\<^sup>* \<longrightarrow> wrote (h1 c) (g1 c))"
        using Suc.IH [of a "d + 1" h cur b h1 cur1 g] by simp
    qed
    then obtain g1 where g1: "mapM (\<lambda>c. place k bp c (d + 1)) ?ch (g, cur) = Some (ps, (g1, cur1))"
      "list_all (\<lambda>q. isFinite (fst q) \<and> isFinite (snd q)) ps" "length ps = length ?ch"
      "step2 h g h1 g1"
      "\<forall>a\<in>set ?ch. \<forall>c. (a, c) \<in> (kidRel bp idf)\<^sup>* \<longrightarrow> wrote (h1 c) (g1 c)" by blast
    let ?g' = "g1(n := (g1 n)\<lparr>n_x := ?x, n_y := ?y\<rparr>)"
    have psne: "map fst ps \<noteq> []" using g1(3) False by auto
    have psfin: "list_all isFinite (map fst ps)" using g1(2) by (simp add: list_all_iff)
    have fx: "isFinite ?x" using psne psfin by (rule mid_finite)
    have 1: "place (Suc k) bp n d (g, cur) = Some (p, (?g', cur'))"
      using False idn g1(1) p c' by (simp add: Let_def)
    have w: "step2 h1 g1 h' ?g'" unfolding h' using fx by (intro step2_write) simp_all
    have 2: "step2 h g h' ?g'" using g1(4) w by (rule step2_trans)
    have 3: "\<forall>c. (n, c) \<in> (kidRel bp idf)\<^sup>* \<longrightarrow> wrote (h' c) (?g' c)"
    proof (intro allI impI)
      fix c assume "(n, c) \<in> (kidRel bp idf)\<^sup>*"
      from kids_reach [OF this] show "wrote (h' c) (?g' c)"
      proof
        assume "c = n"
        then show ?thesis using fx by (simp add: h' wrote_def finXY_def)
      next
        assume "\<exists>a\<in>set ?ch. (a, c) \<in> (kidRel bp idf)\<^sup>*"
        with g1(5) have "wrote (h1 c) (g1 c)" by blast
        then show ?thesis using w by (rule wrote_keep)
      qed
    qed
    from 1 2 3 p fx show ?thesis by auto
  qed
qed


lemma jsub_Fin: "jsub (Fin a) (Fin b) = Fin (a - b)"
  by (simp add: jsub_def)

lemma centre_apply:
  "distinct nodes \<Longrightarrow>
   centre nodes h1 r =
     (if r \<in> set nodes
      then (h1 r)\<lparr>n_x := jsub (n_x (h1 r)) (jhalf (jadd (Math_min (map (\<lambda>n. n_x (h1 n)) nodes))
                                                       (Math_max (map (\<lambda>n. n_x (h1 n)) nodes)))),
                   n_y := jsub (n_y (h1 r)) (jhalf (jadd (Math_min (map (\<lambda>n. n_y (h1 n)) nodes))
                                                       (Math_max (map (\<lambda>n. n_y (h1 n)) nodes))))\<rparr>
      else h1 r)"
proof -
  have f: "\<And>hh. distinct ns \<Longrightarrow>
      fold (\<lambda>n hh. hh(n := (hh n)\<lparr>n_x := jsub (n_x (hh n)) mx, n_y := jsub (n_y (hh n)) my\<rparr>)) ns hh r =
        (if r \<in> set ns then (hh r)\<lparr>n_x := jsub (n_x (hh r)) mx, n_y := jsub (n_y (hh r)) my\<rparr> else hh r)"
    for ns mx my
  proof (induction ns)
    case Nil
    then show ?case by simp
  next
    case (Cons n ns)
    then show ?case by auto
  qed
  assume "distinct nodes"
  then show ?thesis unfolding centre_def Let_def by (rule f)
qed

lemma centred_zero:
  assumes "rs \<noteq> []"
  shows "jhalf (jadd (Math_min (map (\<lambda>r. jsub (Fin r) (jhalf (jadd (Math_min (map Fin rs)) (Math_max (map Fin rs))))) rs))
                     (Math_max (map (\<lambda>r. jsub (Fin r) (jhalf (jadd (Math_min (map Fin rs)) (Math_max (map Fin rs))))) rs)))
         = Fin 0"
proof -
  let ?m = "(Min (set rs) + Max (set rs)) / 2"
  have mid: "jhalf (jadd (Math_min (map Fin rs)) (Math_max (map Fin rs))) = Fin ?m"
    using assms by (simp add: Math_min_Fin Math_max_Fin)
  have tr: "map (\<lambda>r. jsub (Fin r) (Fin ?m)) rs = map Fin (map (\<lambda>r. r - ?m) rs)"
    by (simp add: jsub_Fin)
  have mono: "mono (\<lambda>r::rat. r - ?m)" by (simp add: mono_def)
  have ne: "set rs \<noteq> {}" using assms by simp
  have mn: "Min (set (map (\<lambda>r. r - ?m) rs)) = Min (set rs) - ?m"
    using mono_Min_commute [OF mono _ ne] by simp
  have mx: "Max (set (map (\<lambda>r. r - ?m) rs)) = Max (set rs) - ?m"
    using mono_Max_commute [OF mono _ ne] by simp
  have ne': "map (\<lambda>r. r - ?m) rs \<noteq> []" using assms by simp
  have a: "Math_min (map (\<lambda>r. jsub (Fin r) (Fin ?m)) rs) = Fin (Min (set rs) - ?m)"
    unfolding tr Math_min_Fin mn using ne' by simp
  have b: "Math_max (map (\<lambda>r. jsub (Fin r) (Fin ?m)) rs) = Fin (Max (set rs) - ?m)"
    unfolding tr Math_max_Fin mx using ne' by simp
  show ?thesis unfolding mid a b by simp
qed


lemma autoLayout_Some:
  "autoLayout fuel nodes = Some out \<Longrightarrow>
     \<exists>pl h1 cur.
       mapM (\<lambda>r. place fuel (fst (buildChildrenMap nodes)) r 0) (snd (buildChildrenMap nodes))
         (nodeStore nodes, 0) = Some (pl, (h1, cur)) \<and>
       out = map (centre [0..<length nodes] h1) [0..<length nodes]"
  by (auto simp: autoLayout_def autoLayout_store_def buildChildrenMap_def
      split: prod.splits option.splits)

lemma autoLayout_SomeI:
  "mapM (\<lambda>r. place fuel (fst (buildChildrenMap nodes)) r 0) (snd (buildChildrenMap nodes))
         (nodeStore nodes, 0) = Some (pl, (h1, cur)) \<Longrightarrow>
   autoLayout fuel nodes = Some (map (centre [0..<length nodes] h1) [0..<length nodes])"
  by (auto simp: autoLayout_def autoLayout_store_def buildChildrenMap_def
      split: prod.splits option.splits)

lemma roots_phase_rel:
  assumes "mapM (\<lambda>r. place fuel bp r 0) roots (h, 0) = Some (pl, (h1, cur))"
    and "idsOf h = idf" and "idsOf g = idf"
  shows "\<exists>g1. mapM (\<lambda>r. place fuel bp r 0) roots (g, 0) = Some (pl, (g1, cur)) \<and>
      step2 h g h1 g1 \<and>
      (\<forall>r\<in>set roots. \<forall>c. (r, c) \<in> (kidRel bp idf)\<^sup>* \<longrightarrow> wrote (h1 c) (g1 c))"
proof -
  have "\<exists>g1. mapM (\<lambda>r. place fuel bp r 0) roots (g, 0) = Some (pl, (g1, cur)) \<and>
      list_all (\<lambda>q. isFinite (fst q) \<and> isFinite (snd q)) pl \<and> length pl = length roots \<and>
      step2 h g h1 g1 \<and>
      (\<forall>r\<in>set roots. \<forall>c. (r, c) \<in> (kidRel bp idf)\<^sup>* \<longrightarrow> wrote (h1 c) (g1 c))"
  proof (rule mapM_rel [OF assms])
    fix a h cur b h1 cur1 g
    assume "a \<in> set roots" "place fuel bp a 0 (h, cur) = Some (b, (h1, cur1))"
      "idsOf h = idf" "idsOf g = idf"
    then show "\<exists>g1. place fuel bp a 0 (g, cur) = Some (b, g1, cur1) \<and>
          (isFinite (fst b) \<and> isFinite (snd b)) \<and> step2 h g h1 g1 \<and>
          (\<forall>c. (a, c) \<in> (kidRel bp idf)\<^sup>* \<longrightarrow> wrote (h1 c) (g1 c))"
      using place_rel [of fuel bp a 0 h cur b h1 cur1 idf g] by simp
  qed
  then show ?thesis by blast
qed

lemma nodeStore_nth: "i < length nodes \<Longrightarrow> nodeStore nodes i = nodes ! i"
  by (simp add: nodeStore_def)

lemma centre_finite_zero:
  assumes fin: "\<forall>i<n. finXY (h1 i)" and n: "0 < n"
  shows "(\<forall>i<n. finXY (centre [0..<n] h1 i)) \<and>
     jhalf (jadd (Math_min (map n_x (map (centre [0..<n] h1) [0..<n])))
                 (Math_max (map n_x (map (centre [0..<n] h1) [0..<n])))) = Fin 0 \<and>
     jhalf (jadd (Math_min (map n_y (map (centre [0..<n] h1) [0..<n])))
                 (Math_max (map n_y (map (centre [0..<n] h1) [0..<n])))) = Fin 0"
proof -
  let ?arr = "[0..<n]"
  let ?xs = "map (\<lambda>i. n_x (h1 i)) ?arr" and ?ys = "map (\<lambda>i. n_y (h1 i)) ?arr"
  have "list_all isFinite ?xs" "list_all isFinite ?ys"
    using fin by (simp_all add: list_all_iff finXY_def)
  then obtain rx ry where rx: "?xs = map Fin rx" and ry: "?ys = map Fin ry"
    using all_finite_map by blast
  have lx: "length rx = n" using rx by (metis length_map length_upt minus_nat.diff_0)
  have ly: "length ry = n" using ry by (metis length_map length_upt minus_nat.diff_0)
  have nex: "rx \<noteq> []" and ney: "ry \<noteq> []" using lx ly n by auto
  let ?mx = "jhalf (jadd (Math_min ?xs) (Math_max ?xs))"
  let ?my = "jhalf (jadd (Math_min ?ys) (Math_max ?ys))"
  have cx: "\<And>i. i < n \<Longrightarrow> n_x (centre ?arr h1 i) = jsub (n_x (h1 i)) ?mx"
    and cy: "\<And>i. i < n \<Longrightarrow> n_y (centre ?arr h1 i) = jsub (n_y (h1 i)) ?my"
    by (simp_all add: centre_apply)
  have mxf: "isFinite ?mx" unfolding rx using nex by (simp add: Math_min_Fin Math_max_Fin)
  have myf: "isFinite ?my" unfolding ry using ney by (simp add: Math_min_Fin Math_max_Fin)
  have 1: "\<forall>i<n. finXY (centre ?arr h1 i)"
  proof (intro allI impI)
    fix i assume i: "i < n"
    with fin have "isFinite (n_x (h1 i))" "isFinite (n_y (h1 i))" by (auto simp: finXY_def)
    with mxf myf show "finXY (centre ?arr h1 i)"
      unfolding finXY_def cx [OF i] cy [OF i] by (auto simp: isFinite_Fin jsub_Fin)
  qed
  have ox: "map n_x (map (centre ?arr h1) ?arr) = map (\<lambda>v. jsub v ?mx) ?xs"
    by (simp add: cx)
  have oy: "map n_y (map (centre ?arr h1) ?arr) = map (\<lambda>v. jsub v ?my) ?ys"
    by (simp add: cy)
  have ox': "map n_x (map (centre ?arr h1) ?arr) =
      map (\<lambda>r. jsub (Fin r) (jhalf (jadd (Math_min (map Fin rx)) (Math_max (map Fin rx))))) rx"
    unfolding ox rx by simp
  have oy': "map n_y (map (centre ?arr h1) ?arr) =
      map (\<lambda>r. jsub (Fin r) (jhalf (jadd (Math_min (map Fin ry)) (Math_max (map Fin ry))))) ry"
    unfolding oy ry by simp
  show ?thesis unfolding ox' oy' using 1 centred_zero [OF nex] centred_zero [OF ney] by simp
qed

lemma autoLayout_centred:
  assumes run: "autoLayout fuel nodes = Some out"
    and unplaced: "\<forall>i<length nodes. placed nodes i \<or> finXY (nodes ! i)"
  shows "length out = length nodes \<and>
     (\<forall>i<length nodes. \<exists>X Y. out ! i = (nodes ! i)\<lparr>n_x := X, n_y := Y\<rparr>) \<and>
     (\<forall>i<length nodes. finXY (out ! i)) \<and>
     (nodes \<noteq> [] \<longrightarrow>
        jhalf (jadd (Math_min (map n_x out)) (Math_max (map n_x out))) = Fin 0 \<and>
        jhalf (jadd (Math_min (map n_y out)) (Math_max (map n_y out))) = Fin 0)"
proof -
  let ?bp = "fst (buildChildrenMap nodes)" and ?roots = "snd (buildChildrenMap nodes)"
  let ?h0 = "nodeStore nodes" and ?arr = "[0..<length nodes]"
  from autoLayout_Some [OF run] obtain pl h1 cur where
    m: "mapM (\<lambda>r. place fuel ?bp r 0) ?roots (?h0, 0) = Some (pl, (h1, cur))"
    and out: "out = map (centre ?arr h1) ?arr" by blast
  from roots_phase_rel [OF m refl refl] obtain g1 where
    st: "step2 ?h0 ?h0 h1 g1" and
    got: "\<forall>r\<in>set ?roots. \<forall>c. (r, c) \<in> (kidRel ?bp (idsOf ?h0))\<^sup>* \<longrightarrow> wrote (h1 c) (g1 c)"
    by blast
  have fin: "\<forall>i<length nodes. finXY (h1 i)"
  proof (intro allI impI)
    fix i assume i: "i < length nodes"
    show "finXY (h1 i)"
    proof (cases "placed nodes i")
      case True
      with got have "wrote (h1 i) (g1 i)" by (auto simp: placed_def)
      then show ?thesis by (simp add: wrote_def)
    next
      case False
      with unplaced i have "finXY (nodes ! i)" by blast
      with i have f: "finXY (?h0 i)" by (simp add: nodeStore_nth)
      from st have "wrote (h1 i) (g1 i) \<or> h1 i = ?h0 i" by (auto simp: step2_def)
      with f show ?thesis by (auto simp: wrote_def)
    qed
  qed
  have len: "length out = length nodes" by (simp add: out)
  have frame: "\<forall>i<length nodes. \<exists>X Y. out ! i = (nodes ! i)\<lparr>n_x := X, n_y := Y\<rparr>"
  proof (intro allI impI)
    fix i assume i: "i < length nodes"
    from st have "xyOnly ?h0 h1" by (simp add: step2_def)
    then have "\<exists>X Y. h1 i = (?h0 i)\<lparr>n_x := X, n_y := Y\<rparr>" unfolding xyOnly_def by (rule spec)
    then obtain X Y where "h1 i = (?h0 i)\<lparr>n_x := X, n_y := Y\<rparr>" by blast
    with i have "out ! i = (nodes ! i)\<lparr>n_x := n_x (out ! i), n_y := n_y (out ! i)\<rparr>"
      by (simp add: out centre_apply nodeStore_nth)
    then show "\<exists>X Y. out ! i = (nodes ! i)\<lparr>n_x := X, n_y := Y\<rparr>" by blast
  qed
  have "nodes \<noteq> [] \<longrightarrow>
        (\<forall>i<length nodes. finXY (out ! i)) \<and>
        jhalf (jadd (Math_min (map n_x out)) (Math_max (map n_x out))) = Fin 0 \<and>
        jhalf (jadd (Math_min (map n_y out)) (Math_max (map n_y out))) = Fin 0"
  proof
    assume "nodes \<noteq> []"
    then have "0 < length nodes" by simp
    from centre_finite_zero [OF fin this] show "(\<forall>i<length nodes. finXY (out ! i)) \<and>
        jhalf (jadd (Math_min (map n_x out)) (Math_max (map n_x out))) = Fin 0 \<and>
        jhalf (jadd (Math_min (map n_y out)) (Math_max (map n_y out))) = Fin 0"
      unfolding out by simp
  qed
  moreover have "nodes = [] \<longrightarrow> (\<forall>i<length nodes. finXY (out ! i))" by simp
  ultimately show ?thesis using len frame by blast
qed


lemma mapM_mono:
  "(\<And>a s r. a \<in> set as \<Longrightarrow> f a s = Some r \<Longrightarrow> f' a s = Some r) \<Longrightarrow>
   mapM f as s = Some res \<Longrightarrow> mapM f' as s = Some res"
proof (induction as arbitrary: s res)
  case Nil
  then show ?case by simp
next
  case (Cons a as)
  from Cons.prems(2) obtain b s1 bs s2 where
    fa: "f a s = Some (b, s1)" and rest: "mapM f as s1 = Some (bs, s2)" and res: "res = (b # bs, s2)"
    by (auto split: option.splits)
  from Cons.prems(1) [OF _ fa] have fa': "f' a s = Some (b, s1)" by simp
  have "mapM f' as s1 = Some (bs, s2)"
    by (rule Cons.IH [OF _ rest]) (simp add: Cons.prems(1))
  with fa' res show ?case by simp
qed

lemma place_fuel_Suc:
  "place k bp n d s = Some res \<Longrightarrow> place (Suc k) bp n d s = Some res"
proof (induction k arbitrary: n d s res)
  case 0
  then show ?case by simp
next
  case (Suc k)
  let ?ch = "getOrEmpty bp (Some (n_id (fst s n)))"
  show ?case
  proof (cases "?ch = []")
    case True
    with Suc.prems show ?thesis by (simp add: Let_def)
  next
    case False
    with Suc.prems obtain ps s1 where
      m: "mapM (\<lambda>c. place k bp c (d + 1)) ?ch s = Some (ps, s1)"
      by (auto simp: Let_def split: option.splits)
    have m': "mapM (\<lambda>c. place (Suc k) bp c (d + 1)) ?ch s = Some (ps, s1)"
      by (rule mapM_mono [OF _ m]) (rule Suc.IH)
    from Suc.prems False m have
      "res = (case (ps, s1) of (childPositions, (h1, cursorX)) \<Rightarrow>
          let minX = Math_min (map fst childPositions);
              maxX = Math_max (map fst childPositions);
              x = jhalf (jadd minX maxX);
              y = Fin (of_nat d * 90)
          in ((x, y), (h1(n := (h1 n)\<lparr>n_x := x, n_y := y\<rparr>), cursorX)))"
      by (auto simp: Let_def split: prod.splits)
    with False m' show ?thesis
      by (subst place.simps) (auto simp: Let_def split: prod.splits)
  qed
qed

lemma place_fuel_le:
  assumes "k \<le> k'" and "place k bp n d s = Some res"
  shows "place k' bp n d s = Some res"
  using assms(1)
proof (induction k' rule: nat_induct_at_least)
  case base
  show ?case by (rule assms(2))
next
  case (Suc m)
  from Suc.IH show ?case by (rule place_fuel_Suc)
qed

lemma mapM_total:
  assumes "\<And>a h cur. a \<in> set as \<Longrightarrow> idsOf h = idf \<Longrightarrow>
      \<exists>b h1 cur1. f a (h, cur) = Some (b, (h1, cur1)) \<and> idsOf h1 = idf"
    and "idsOf h = idf"
  shows "\<exists>bs h' cur'. mapM f as (h, cur) = Some (bs, (h', cur')) \<and> idsOf h' = idf"
  using assms
proof (induction as arbitrary: h cur)
  case Nil
  then show ?case by simp
next
  case (Cons a as)
  from Cons.prems(1) [of a h cur] Cons.prems(2) obtain b h1 cur1 where
    fa: "f a (h, cur) = Some (b, (h1, cur1))" and i1: "idsOf h1 = idf" by auto
  have "\<exists>bs h' cur'. mapM f as (h1, cur1) = Some (bs, (h', cur')) \<and> idsOf h' = idf"
  proof (rule Cons.IH [OF _ i1])
    fix a' h cur
    assume "a' \<in> set as" "idsOf h = idf"
    then show "\<exists>b h1 cur1. f a' (h, cur) = Some (b, (h1, cur1)) \<and> idsOf h1 = idf"
      using Cons.prems(1) [of a' h cur] by simp
  qed
  then obtain bs h' cur' where "mapM f as (h1, cur1) = Some (bs, (h', cur'))" "idsOf h' = idf"
    by blast
  with fa show ?case by simp
qed

lemma place_ids:
  "place k bp n d (h, cur) = Some (p, (h', cur')) \<Longrightarrow> idsOf h' = idsOf h"
  using place_rel [of k bp n d h cur p h' cur' "idsOf h" h]
  by (auto simp: step2_def dest: xyOnly_ids)

lemma place_total:
  assumes finA: "finite A"
    and inA: "\<And>a c. a \<in> A \<Longrightarrow> c \<in> set (getOrEmpty bp (Some (idf a))) \<Longrightarrow> c \<in> A"
    and uniq: "\<And>a b c. a \<in> A \<Longrightarrow> b \<in> A \<Longrightarrow> c \<in> set (getOrEmpty bp (Some (idf a))) \<Longrightarrow>
        c \<in> set (getOrEmpty bp (Some (idf b))) \<Longrightarrow> a = b"
  shows "r \<in> A \<Longrightarrow> P \<subseteq> A \<Longrightarrow> r \<notin> P \<Longrightarrow>
     (\<forall>a\<in>insert r P. (\<forall>b\<in>A. a \<notin> set (getOrEmpty bp (Some (idf b)))) \<or>
                       (\<exists>b\<in>P. a \<in> set (getOrEmpty bp (Some (idf b))))) \<Longrightarrow>
     card A \<le> card P + k \<Longrightarrow> idsOf h = idf \<Longrightarrow>
     \<exists>p h' cur'. place k bp r d (h, cur) = Some (p, (h', cur')) \<and> idsOf h' = idf"
proof (induction k arbitrary: r P d h cur)
  case 0
  from 0(1,2,3) finA have "card (insert r P) \<le> card A" "card (insert r P) = Suc (card P)"
    by (auto intro: card_mono dest: finite_subset)
  with 0(5) show ?case by simp
next
  case (Suc k)
  let ?ch = "getOrEmpty bp (Some (idf r))"
  have "idsOf h r = idf r" using Suc.prems(6) by simp
  then have idr: "n_id (h r) = idf r" by (simp add: idsOf_def)
  show ?case
  proof (cases "?ch = []")
    case True
    let ?h' = "h(r := (h r)\<lparr>n_x := Fin (of_nat cur * 120), n_y := Fin (of_nat d * 90)\<rparr>)"
    have "place (Suc k) bp r d (h, cur) =
        Some ((Fin (of_nat cur * 120), Fin (of_nat d * 90)), (?h', cur + 1))"
      using True idr by (simp add: Let_def)
    moreover have "idsOf ?h' = idf"
      using xyOnly_ids [OF xyOnly_write, of h r] Suc.prems(6) by simp
    ultimately show ?thesis by blast
  next
    case False
    have finP: "finite P" using Suc.prems(2) finA by (rule finite_subset)
    have "\<exists>ps h1 cur1. mapM (\<lambda>c. place k bp c (d + 1)) ?ch (h, cur) = Some (ps, (h1, cur1)) \<and>
        idsOf h1 = idf"
    proof (rule mapM_total [OF _ Suc.prems(6)])
      fix a h cur
      assume a: "a \<in> set ?ch" and ih: "idsOf h = idf"
      have aA: "a \<in> A" using inA [OF Suc.prems(1) a] .
      have anot: "a \<notin> insert r P"
      proof
        assume ain: "a \<in> insert r P"
        with Suc.prems(4) have "(\<forall>b\<in>A. a \<notin> set (getOrEmpty bp (Some (idf b)))) \<or>
            (\<exists>b\<in>P. a \<in> set (getOrEmpty bp (Some (idf b))))" by blast
        then show False
        proof
          assume "\<forall>b\<in>A. a \<notin> set (getOrEmpty bp (Some (idf b)))"
          with Suc.prems(1) a show False by blast
        next
          assume "\<exists>b\<in>P. a \<in> set (getOrEmpty bp (Some (idf b)))"
          then obtain b where b: "b \<in> P" "a \<in> set (getOrEmpty bp (Some (idf b)))" by blast
          with Suc.prems(2) have "b \<in> A" by blast
          from uniq [OF Suc.prems(1) this a b(2)] have "r = b" .
          with b(1) Suc.prems(3) show False by simp
        qed
      qed
      have inv: "\<forall>x\<in>insert a (insert r P).
          (\<forall>b\<in>A. x \<notin> set (getOrEmpty bp (Some (idf b)))) \<or>
          (\<exists>b\<in>insert r P. x \<in> set (getOrEmpty bp (Some (idf b))))"
      proof
        fix x assume "x \<in> insert a (insert r P)"
        then consider "x = a" | "x \<in> insert r P" by blast
        then show "(\<forall>b\<in>A. x \<notin> set (getOrEmpty bp (Some (idf b)))) \<or>
          (\<exists>b\<in>insert r P. x \<in> set (getOrEmpty bp (Some (idf b))))"
        proof cases
          case 1
          with a show ?thesis by blast
        next
          case 2
          with Suc.prems(4) show ?thesis by blast
        qed
      qed
      have card: "card A \<le> card (insert r P) + k"
        using Suc.prems(3,5) finP by simp
      have sub: "insert r P \<subseteq> A" using Suc.prems(1,2) by simp
      from Suc.IH [OF aA sub anot inv card ih]
      show "\<exists>b h1 cur1. place k bp a (d + 1) (h, cur) = Some (b, (h1, cur1)) \<and> idsOf h1 = idf" .
    qed
    then obtain ps h1 cur1 where
      m: "mapM (\<lambda>c. place k bp c (d + 1)) ?ch (h, cur) = Some (ps, (h1, cur1))"
      and i1: "idsOf h1 = idf" by blast
    let ?x = "jhalf (jadd (Math_min (map fst ps)) (Math_max (map fst ps)))"
    let ?y = "Fin (of_nat d * 90)"
    let ?h' = "h1(r := (h1 r)\<lparr>n_x := ?x, n_y := ?y\<rparr>)"
    have "place (Suc k) bp r d (h, cur) = Some ((?x, ?y), (?h', cur1))"
      using False idr m by (simp add: Let_def)
    moreover have "idsOf ?h' = idf"
      using xyOnly_ids [OF xyOnly_write, of h1 r] i1 by simp
    ultimately show ?thesis by blast
  qed
qed


lemma autoLayout_fuel_le:
  assumes "k \<le> k'" and "autoLayout k nodes = Some out"
  shows "autoLayout k' nodes = Some out"
proof -
  let ?bp = "fst (buildChildrenMap nodes)" and ?roots = "snd (buildChildrenMap nodes)"
  from autoLayout_Some [OF assms(2)] obtain pl h1 cur where
    m: "mapM (\<lambda>r. place k ?bp r 0) ?roots (nodeStore nodes, 0) = Some (pl, (h1, cur))"
    and out: "out = map (centre [0..<length nodes] h1) [0..<length nodes]" by blast
  have "mapM (\<lambda>r. place k' ?bp r 0) ?roots (nodeStore nodes, 0) = Some (pl, (h1, cur))"
    by (rule mapM_mono [OF _ m]) (rule place_fuel_le [OF assms(1)])
  from autoLayout_SomeI [OF this] out show ?thesis by simp
qed

lemma idsOf_nodeStore: "i < length nodes \<Longrightarrow> idsOf (nodeStore nodes) i = n_id (nodes ! i)"
  by (simp add: idsOf_def nodeStore_def)

lemma kids_list:
  "getOrEmpty (fst (buildChildrenMap nodes)) (Some s) =
     filter (\<lambda>i. n_parentId (nodes ! i) = Some s \<and> s \<noteq> []) [0..<length nodes]"
  unfolding buildChildrenMap_index by (simp add: parentKey_Some)

lemma kid_in: "c \<in> set (getOrEmpty (fst (buildChildrenMap nodes)) (Some s)) \<Longrightarrow> c < length nodes"
  by (simp add: kids_list)

lemma kid_unique:
  assumes d: "distinct (map n_id nodes)" and a: "a < length nodes" and b: "b < length nodes"
    and ca: "c \<in> set (getOrEmpty (fst (buildChildrenMap nodes)) (Some (idsOf (nodeStore nodes) a)))"
    and cb: "c \<in> set (getOrEmpty (fst (buildChildrenMap nodes)) (Some (idsOf (nodeStore nodes) b)))"
  shows "a = b"
proof -
  from ca cb have "idsOf (nodeStore nodes) a = idsOf (nodeStore nodes) b" by (simp add: kids_list)
  with a b have "map n_id nodes ! a = map n_id nodes ! b" by (simp add: idsOf_nodeStore)
  moreover have "a < length (map n_id nodes)" "b < length (map n_id nodes)" using a b by simp_all
  ultimately show ?thesis using d nth_eq_iff_index_eq by blast
qed

lemma root_no_parent:
  assumes r: "r \<in> set (snd (buildChildrenMap nodes))" and b: "b < length nodes"
  shows "r \<notin> set (getOrEmpty (fst (buildChildrenMap nodes)) (Some (idsOf (nodeStore nodes) b)))"
proof
  assume "r \<in> set (getOrEmpty (fst (buildChildrenMap nodes)) (Some (idsOf (nodeStore nodes) b)))"
  with b have p: "n_parentId (nodes ! r) = Some (n_id (nodes ! b))" "n_id (nodes ! b) \<noteq> []"
    and rl: "r < length nodes"
    by (simp_all add: kids_list idsOf_nodeStore)
  from r have "isRoot (nodeStore nodes) (n_id ` set nodes) r"
    by (simp add: buildChildrenMap_roots(1))
  with p rl have "n_id (nodes ! b) \<notin> n_id ` set nodes"
    by (auto simp: isRoot_def noParent_def nodeStore_def)
  with b show False by simp
qed

lemma autoLayout_total:
  assumes d: "distinct (map n_id nodes)" and k: "length nodes \<le> fuel"
  shows "\<exists>out. autoLayout fuel nodes = Some out"
proof -
  let ?bp = "fst (buildChildrenMap nodes)" and ?roots = "snd (buildChildrenMap nodes)"
  let ?h0 = "nodeStore nodes" and ?A = "{0..<length nodes}"
  let ?idf = "idsOf ?h0"
  have "\<exists>pl h1 cur. mapM (\<lambda>r. place fuel ?bp r 0) ?roots (?h0, 0) = Some (pl, (h1, cur)) \<and>
      idsOf h1 = ?idf"
  proof (rule mapM_total [OF _ refl])
    fix r h cur
    assume r: "r \<in> set ?roots" and ih: "idsOf h = ?idf"
    have rA: "r \<in> ?A" using r by (simp add: buildChildrenMap_roots(1))
    have inv: "\<forall>a\<in>insert r {}. (\<forall>b\<in>?A. a \<notin> set (getOrEmpty ?bp (Some (?idf b)))) \<or>
        (\<exists>b\<in>{}. a \<in> set (getOrEmpty ?bp (Some (?idf b))))"
      using root_no_parent [OF r] by simp
    show "\<exists>b h1 cur1. place fuel ?bp r 0 (h, cur) = Some (b, (h1, cur1)) \<and> idsOf h1 = ?idf"
    proof (rule place_total [where A = ?A and P = "{}", OF _ _ _ rA _ _ inv _ ih])
      show "finite ?A" by simp
      show "\<And>a c. a \<in> ?A \<Longrightarrow> c \<in> set (getOrEmpty ?bp (Some (?idf a))) \<Longrightarrow> c \<in> ?A"
        using kid_in by simp
      show "\<And>a b c. a \<in> ?A \<Longrightarrow> b \<in> ?A \<Longrightarrow> c \<in> set (getOrEmpty ?bp (Some (?idf a))) \<Longrightarrow>
          c \<in> set (getOrEmpty ?bp (Some (?idf b))) \<Longrightarrow> a = b"
        using kid_unique [OF d] by simp
      show "{} \<subseteq> ?A" by simp
      show "r \<notin> {}" by simp
      show "card ?A \<le> card {} + fuel" using k by simp
    qed
  qed
  then obtain pl h1 cur where
    "mapM (\<lambda>r. place fuel ?bp r 0) ?roots (?h0, 0) = Some (pl, (h1, cur))" by blast
  from autoLayout_SomeI [OF this] show ?thesis by blast
qed

lemma placed_acyclic:
  assumes d: "distinct (map n_id nodes)" and p: "placed nodes c"
  shows "(c, c) \<notin> (kidRel (fst (buildChildrenMap nodes)) (idsOf (nodeStore nodes)))\<^sup>+"
proof -
  let ?bp = "fst (buildChildrenMap nodes)" and ?idf = "idsOf (nodeStore nodes)"
  let ?R = "kidRel ?bp ?idf"
  have dom: "\<And>a c. (a, c) \<in> ?R \<Longrightarrow> a < length nodes"
  proof (rule ccontr)
    fix a c assume ac: "(a, c) \<in> ?R" and "\<not> a < length nodes"
    then have "?idf a = []" by (simp add: idsOf_def nodeStore_def noNode_def)
    with ac show False by (simp add: kidRel_def kids_list)
  qed
  have uniq: "\<And>a b c. (a, c) \<in> ?R \<Longrightarrow> (b, c) \<in> ?R \<Longrightarrow> a = b"
  proof -
    fix a b c assume ac: "(a, c) \<in> ?R" and bc: "(b, c) \<in> ?R"
    from kid_unique [OF d dom [OF ac] dom [OF bc]] ac bc show "a = b" by (simp add: kidRel_def)
  qed
  from p obtain r where r: "r \<in> set (snd (buildChildrenMap nodes))" and rc: "(r, c) \<in> ?R\<^sup>*"
    by (auto simp: placed_def)
  from rc show ?thesis
  proof (induction rule: rtrancl_induct)
    case base
    show ?case
    proof
      assume "(r, r) \<in> ?R\<^sup>+"
      then obtain z where z: "(z, r) \<in> ?R" by (auto dest: tranclD2)
      from root_no_parent [OF r dom [OF z]] z show False by (simp add: kidRel_def)
    qed
  next
    case (step y z)
    show ?case
    proof
      assume "(z, z) \<in> ?R\<^sup>+"
      then obtain w where w: "(z, w) \<in> ?R\<^sup>*" "(w, z) \<in> ?R" by (auto dest: tranclD2)
      from uniq [OF w(2) step(2)] have "w = y" .
      with w(1) step(2) have "(y, y) \<in> ?R\<^sup>+" by (auto intro: rtrancl_into_trancl2)
      with step(3) show False by simp
    qed
  qed
qed

lemma self_child_loops:
  "getOrEmpty bp (Some s) = [c] \<Longrightarrow> n_id (fst st c) = s \<Longrightarrow> place k bp c d st = None"
  by (induction k arbitrary: d) (simp_all add: Let_def)

lemma dupIdNodes_loops: "autoLayout fuel dupIdNodes = None"
proof -
  let ?bp = "fst (buildChildrenMap dupIdNodes)"
  have u: "[0..<2] = [0, 1::nat]" by (simp add: upt_rec)
  have l: "length dupIdNodes = 2" by (simp add: dupIdNodes_def)
  have kids: "getOrEmpty ?bp (Some ''a'') = [1]"
    by (simp add: kids_list l u) (simp add: dupIdNodes_def)
  have roots: "snd (buildChildrenMap dupIdNodes) = [0]"
    by (simp add: buildChildrenMap_def buildChildrenMap_store_def dupIdNodes_def u Let_def
        indexStep_def rootStep_def getOrEmpty_def parentKey_def noParent_def nodeStore_def)
  have id1: "n_id (nodeStore dupIdNodes 1) = ''a''" "n_id (nodeStore dupIdNodes 0) = ''a''"
    by (simp_all add: nodeStore_def dupIdNodes_def)
  have one: "\<And>k d. place k ?bp 1 d (nodeStore dupIdNodes, 0) = None"
    by (rule self_child_loops [OF kids]) (simp add: nodeStore_def dupIdNodes_def)
  have "place fuel ?bp 0 0 (nodeStore dupIdNodes, 0) = None"
  proof (cases fuel)
    case 0
    then show ?thesis by simp
  next
    case (Suc k)
    then show ?thesis using kids id1 one [of k 1] by (simp add: Let_def)
  qed
  then have "mapM (\<lambda>r. place fuel ?bp r 0) (snd (buildChildrenMap dupIdNodes))
      (nodeStore dupIdNodes, 0) = None"
    by (simp add: roots)
  then show ?thesis
    by (auto simp: autoLayout_def autoLayout_store_def buildChildrenMap_def split: prod.splits)
qed


lemma buildChildrenMap_store_cong:
  assumes "\<forall>r\<in>set arr. n_id (g r) = n_id (h r) \<and> n_parentId (g r) = n_parentId (h r)"
  shows "buildChildrenMap_store g arr = buildChildrenMap_store h arr"
proof -
  have ix: "fold (indexStep g) arr Map.empty = fold (indexStep h) arr Map.empty"
  proof (rule fold_cong [OF refl refl])
    fix n assume "n \<in> set arr"
    with assms have "n_parentId (g n) = n_parentId (h n)" by simp
    then show "indexStep g n = indexStep h n" by (simp add: indexStep_def fun_eq_iff)
  qed
  have ids: "map (\<lambda>n. n_id (g n)) arr = map (\<lambda>n. n_id (h n)) arr"
    using assms by simp
  have r0: "filter (\<lambda>n. noParent (n_parentId (g n))) (getOrEmpty (fold (indexStep h) arr Map.empty) None)
      = filter (\<lambda>n. noParent (n_parentId (h n))) (getOrEmpty (fold (indexStep h) arr Map.empty) None)"
  proof (rule filter_cong [OF refl])
    fix n assume "n \<in> set (getOrEmpty (fold (indexStep h) arr Map.empty) None)"
    then have "n \<in> set arr" by (simp add: index_fold getOrEmpty_def split: if_splits)
    with assms show "noParent (n_parentId (g n)) = noParent (n_parentId (h n))" by simp
  qed
  have rs: "\<And>rs. fold (rootStep g (set (map (\<lambda>n. n_id (h n)) arr))) arr rs =
      fold (rootStep h (set (map (\<lambda>n. n_id (h n)) arr))) arr rs"
  proof (rule fold_cong [OF refl refl])
    fix n assume "n \<in> set arr"
    with assms have "n_parentId (g n) = n_parentId (h n)" by simp
    then show "rootStep g (set (map (\<lambda>n. n_id (h n)) arr)) n =
        rootStep h (set (map (\<lambda>n. n_id (h n)) arr)) n"
      by (simp add: rootStep_def fun_eq_iff)
  qed
  show ?thesis
    unfolding buildChildrenMap_store_def Let_def ix ids r0 rs ..
qed

lemma buildChildrenMap_cong:
  assumes "length nodes' = length nodes"
    and "\<forall>i<length nodes. n_id (nodes' ! i) = n_id (nodes ! i) \<and>
           n_parentId (nodes' ! i) = n_parentId (nodes ! i)"
  shows "buildChildrenMap nodes' = buildChildrenMap nodes"
  unfolding buildChildrenMap_def assms(1)
  by (rule buildChildrenMap_store_cong) (use assms in \<open>simp add: nodeStore_def\<close>)

lemma idsOf_nodeStore_cong:
  assumes "length nodes' = length nodes"
    and "\<forall>i<length nodes. n_id (nodes' ! i) = n_id (nodes ! i)"
  shows "idsOf (nodeStore nodes') = idsOf (nodeStore nodes)"
  using assms by (auto simp: idsOf_def nodeStore_def fun_eq_iff)

lemma autoLayout_coords_indep:
  assumes run: "autoLayout fuel nodes = Some out"
    and len: "length nodes' = length nodes"
    and same: "\<forall>i<length nodes. n_id (nodes' ! i) = n_id (nodes ! i) \<and>
           n_parentId (nodes' ! i) = n_parentId (nodes ! i)"
    and all: "\<forall>i<length nodes. placed nodes i"
  shows "autoLayout fuel nodes' =
     Some (map (\<lambda>i. (nodes' ! i)\<lparr>n_x := n_x (out ! i), n_y := n_y (out ! i)\<rparr>) [0..<length nodes])"
proof -
  let ?bp = "fst (buildChildrenMap nodes)" and ?roots = "snd (buildChildrenMap nodes)"
  let ?h = "nodeStore nodes" and ?g = "nodeStore nodes'" and ?arr = "[0..<length nodes]"
  from autoLayout_Some [OF run] obtain pl h1 cur where
    m: "mapM (\<lambda>r. place fuel ?bp r 0) ?roots (?h, 0) = Some (pl, (h1, cur))"
    and out: "out = map (centre ?arr h1) ?arr" by blast
  have ig: "idsOf ?g = idsOf ?h" using len same by (intro idsOf_nodeStore_cong) simp_all
  from roots_phase_rel [OF m refl ig] obtain g1 where
    mg: "mapM (\<lambda>r. place fuel ?bp r 0) ?roots (?g, 0) = Some (pl, (g1, cur))"
    and st: "step2 ?h ?g h1 g1"
    and got: "\<forall>r\<in>set ?roots. \<forall>c. (r, c) \<in> (kidRel ?bp (idsOf ?h))\<^sup>* \<longrightarrow> wrote (h1 c) (g1 c)"
    by blast
  have bc: "buildChildrenMap nodes' = buildChildrenMap nodes"
    using len same by (rule buildChildrenMap_cong)
  have res: "autoLayout fuel nodes' = Some (map (centre ?arr g1) ?arr)"
    using autoLayout_SomeI [of fuel nodes' pl g1 cur] mg by (simp add: bc len)
  have w: "\<forall>i<length nodes. n_x (h1 i) = n_x (g1 i) \<and> n_y (h1 i) = n_y (g1 i)"
  proof (intro allI impI)
    fix i assume "i < length nodes"
    with all have "placed nodes i" by simp
    with got have "wrote (h1 i) (g1 i)" by (auto simp: placed_def)
    then show "n_x (h1 i) = n_x (g1 i) \<and> n_y (h1 i) = n_y (g1 i)" by (simp add: wrote_def)
  qed
  have xs: "map (\<lambda>n. n_x (g1 n)) ?arr = map (\<lambda>n. n_x (h1 n)) ?arr"
    and ys: "map (\<lambda>n. n_y (g1 n)) ?arr = map (\<lambda>n. n_y (h1 n)) ?arr"
    using w by simp_all
  have "map (centre ?arr g1) ?arr =
      map (\<lambda>i. (nodes' ! i)\<lparr>n_x := n_x (out ! i), n_y := n_y (out ! i)\<rparr>) ?arr"
  proof (rule map_cong [OF refl])
    fix i assume "i \<in> set ?arr"
    then have i: "i < length nodes" by simp
    from st have "xyOnly ?g g1" by (simp add: step2_def)
    then have "\<exists>X Y. g1 i = (?g i)\<lparr>n_x := X, n_y := Y\<rparr>" unfolding xyOnly_def by (rule spec)
    then obtain X Y where g1i: "g1 i = (nodes' ! i)\<lparr>n_x := X, n_y := Y\<rparr>"
      using i len by (auto simp: nodeStore_def)
    have ox: "n_x (out ! i) = n_x (centre ?arr h1 i)" "n_y (out ! i) = n_y (centre ?arr h1 i)"
      using i by (simp_all add: out)
    show "centre ?arr g1 i = (nodes' ! i)\<lparr>n_x := n_x (out ! i), n_y := n_y (out ! i)\<rparr>"
      unfolding ox using i w by (simp add: centre_apply xs ys g1i)
  qed
  with res show ?thesis by simp
qed

lemma autoLayout_again:
  assumes run: "autoLayout fuel nodes = Some out" and all: "\<forall>i<length nodes. placed nodes i"
  shows "autoLayout fuel out = Some out"
proof -
  from autoLayout_centred [OF run] all have len: "length out = length nodes"
    and frame: "\<forall>i<length nodes. \<exists>X Y. out ! i = (nodes ! i)\<lparr>n_x := X, n_y := Y\<rparr>" by blast+
  have same: "\<forall>i<length nodes. n_id (out ! i) = n_id (nodes ! i) \<and>
      n_parentId (out ! i) = n_parentId (nodes ! i)"
  proof (intro allI impI)
    fix i assume "i < length nodes"
    with frame obtain X Y where "out ! i = (nodes ! i)\<lparr>n_x := X, n_y := Y\<rparr>" by blast
    then show "n_id (out ! i) = n_id (nodes ! i) \<and> n_parentId (out ! i) = n_parentId (nodes ! i)"
      by simp
  qed
  from autoLayout_coords_indep [OF run len same all]
  have "autoLayout fuel out =
      Some (map (\<lambda>i. (out ! i)\<lparr>n_x := n_x (out ! i), n_y := n_y (out ! i)\<rparr>) [0..<length nodes])" .
  also have "map (\<lambda>i. (out ! i)\<lparr>n_x := n_x (out ! i), n_y := n_y (out ! i)\<rparr>) [0..<length nodes] = out"
    unfolding len [symmetric] by (simp add: map_nth)
  finally show ?thesis .
qed


lemma sample_laid: "autoLayout 5 sample = Some sampleLaid"
  by code_simp

lemma sample_index:
  "snd (buildChildrenMap sample) = [0]"
  "getOrEmpty (fst (buildChildrenMap sample)) (Some ''A'') = [1, 2]"
proof -
  have u: "[0..<3] = [0, 1, 2::nat]" by (simp add: upt_rec)
  show "snd (buildChildrenMap sample) = [0]"
    by (simp add: buildChildrenMap_def buildChildrenMap_store_def sample_def u Let_def
        indexStep_def rootStep_def getOrEmpty_def parentKey_def noParent_def nodeStore_def)
  show "getOrEmpty (fst (buildChildrenMap sample)) (Some ''A'') = [1, 2]"
    by (simp add: kids_list) (simp add: sample_def u)
qed

lemma sample_placed: "\<forall>i<length sample. placed sample i"
proof (intro allI impI)
  fix i assume "i < length sample"
  then have "i = 0 \<or> i = 1 \<or> i = 2" by (auto simp: sample_def)
  moreover have "idsOf (nodeStore sample) 0 = ''A''" by (simp add: idsOf_def nodeStore_def sample_def)
  then have "(0, 1) \<in> kidRel (fst (buildChildrenMap sample)) (idsOf (nodeStore sample))"
    "(0, 2) \<in> kidRel (fst (buildChildrenMap sample)) (idsOf (nodeStore sample))"
    by (simp_all add: kidRel_def sample_index)
  ultimately show "placed sample i"
    unfolding placed_def sample_index by auto
qed





text \<open>
  C7, as amended. When every node of the sequence is placed (it is a root or lies under a
  root in the parent index, as in every forest), \<^verbatim>\<open>autoLayout\<close> is idempotent: applied
  to its own output it returns that output. More generally its output coordinates are the
  same for every sequence with the same ids and parentIds in the same order, whatever the
  input coordinates. It does return when the ids are pairwise distinct and the recursion
  may go as deep as there are nodes.
\<close>

theorem autoLayout_idempotent:
  "(\<forall>out. autoLayout fuel nodes = Some out \<and> (\<forall>i<length nodes. placed nodes i) \<longrightarrow>
      autoLayout fuel out = Some out \<and>
      (\<forall>nodes' :: NodeT list. length nodes' = length nodes \<and>
         (\<forall>i<length nodes. n_id (nodes' ! i) = n_id (nodes ! i) \<and>
            n_parentId (nodes' ! i) = n_parentId (nodes ! i)) \<longrightarrow>
         (\<exists>out'. autoLayout fuel nodes' = Some out' \<and>
            map n_x out' = map n_x out \<and> map n_y out' = map n_y out))) \<and>
   (distinct (map n_id nodes) \<and> length nodes \<le> fuel \<longrightarrow>
      (\<exists>out. autoLayout fuel nodes = Some out))"
proof -
  have "\<forall>out. autoLayout fuel nodes = Some out \<and> (\<forall>i<length nodes. placed nodes i) \<longrightarrow>
      autoLayout fuel out = Some out \<and>
      (\<forall>nodes' :: NodeT list. length nodes' = length nodes \<and>
         (\<forall>i<length nodes. n_id (nodes' ! i) = n_id (nodes ! i) \<and>
            n_parentId (nodes' ! i) = n_parentId (nodes ! i)) \<longrightarrow>
         (\<exists>out'. autoLayout fuel nodes' = Some out' \<and>
            map n_x out' = map n_x out \<and> map n_y out' = map n_y out))"
  proof (intro allI impI, elim conjE)
    fix out
    assume run: "autoLayout fuel nodes = Some out" and all: "\<forall>i<length nodes. placed nodes i"
    have len: "length out = length nodes" using autoLayout_centred [OF run] all by blast
    have 1: "autoLayout fuel out = Some out" using run all by (rule autoLayout_again)
    have 2: "\<forall>nodes' :: NodeT list. length nodes' = length nodes \<and>
         (\<forall>i<length nodes. n_id (nodes' ! i) = n_id (nodes ! i) \<and>
            n_parentId (nodes' ! i) = n_parentId (nodes ! i)) \<longrightarrow>
         (\<exists>out'. autoLayout fuel nodes' = Some out' \<and>
            map n_x out' = map n_x out \<and> map n_y out' = map n_y out)"
    proof (intro allI impI, elim conjE)
      fix nodes' :: "NodeT list"
      assume l: "length nodes' = length nodes"
        and s: "\<forall>i<length nodes. n_id (nodes' ! i) = n_id (nodes ! i) \<and>
            n_parentId (nodes' ! i) = n_parentId (nodes ! i)"
      let ?out' = "map (\<lambda>i. (nodes' ! i)\<lparr>n_x := n_x (out ! i), n_y := n_y (out ! i)\<rparr>) [0..<length nodes]"
      have r: "autoLayout fuel nodes' = Some ?out'"
        using run l s all by (rule autoLayout_coords_indep)
      have "map n_x ?out' = map n_x out" "map n_y ?out' = map n_y out"
        by (rule nth_equalityI; simp add: len)+
      with r show "\<exists>out'. autoLayout fuel nodes' = Some out' \<and>
            map n_x out' = map n_x out \<and> map n_y out' = map n_y out" by blast
    qed
    from 1 2 show "autoLayout fuel out = Some out \<and>
      (\<forall>nodes' :: NodeT list. length nodes' = length nodes \<and>
         (\<forall>i<length nodes. n_id (nodes' ! i) = n_id (nodes ! i) \<and>
            n_parentId (nodes' ! i) = n_parentId (nodes ! i)) \<longrightarrow>
         (\<exists>out'. autoLayout fuel nodes' = Some out' \<and>
            map n_x out' = map n_x out \<and> map n_y out' = map n_y out))" by blast
  qed
  moreover have "distinct (map n_id nodes) \<and> length nodes \<le> fuel \<longrightarrow>
      (\<exists>out. autoLayout fuel nodes = Some out)"
    using autoLayout_total by blast
  ultimately show ?thesis by blast
qed

theorem autoLayout_idempotent_witness:
  "autoLayout 5 sample = Some sampleLaid \<and> placed sample 0 \<and> placed sample 1 \<and> placed sample 2 \<and>
   autoLayout 5 sampleLaid = Some sampleLaid"
proof -
  have l: "length sample = 3" by (simp add: sample_def)
  have p: "placed sample 0" "placed sample 1" "placed sample 2"
    using sample_placed l by simp_all
  from autoLayout_idempotent [of 5 sample] sample_laid sample_placed
  have "autoLayout 5 sampleLaid = Some sampleLaid" by blast
  with sample_laid p show ?thesis by simp
qed

text \<open>
  A node that is not placed keeps its coordinates and takes part in the bounding box, so
  a second run centres a different box: with a root and a node that is its own parent at
  \<open>x = 100\<close>, the first run puts the root at \<open>x = -50\<close> and the second at \<open>x = -25\<close>.
\<close>

theorem autoLayout_unplaced_drift_counterexample:
  "autoLayout 2 mixedNodes =
     Some [\<lparr>n_id = ''r'', n_label = ''R'', n_x = Fin (- 50), n_y = Fin 0, n_parentId = None,
             n_color = None, n_side = None\<rparr>,
           \<lparr>n_id = ''c'', n_label = ''C'', n_x = Fin 50, n_y = Fin 0, n_parentId = Some ''c'',
             n_color = None, n_side = None\<rparr>] \<and>
   autoLayout 2
       [\<lparr>n_id = ''r'', n_label = ''R'', n_x = Fin (- 50), n_y = Fin 0, n_parentId = None,
          n_color = None, n_side = None\<rparr>,
        \<lparr>n_id = ''c'', n_label = ''C'', n_x = Fin 50, n_y = Fin 0, n_parentId = Some ''c'',
          n_color = None, n_side = None\<rparr>] =
     Some [\<lparr>n_id = ''r'', n_label = ''R'', n_x = Fin (- 25), n_y = Fin 0, n_parentId = None,
             n_color = None, n_side = None\<rparr>,
           \<lparr>n_id = ''c'', n_label = ''C'', n_x = Fin 25, n_y = Fin 0, n_parentId = Some ''c'',
             n_color = None, n_side = None\<rparr>] \<and>
   Fin (- 50) \<noteq> Fin (- 25)"
proof -
  have "autoLayout 2 mixedNodes =
     Some [\<lparr>n_id = ''r'', n_label = ''R'', n_x = Fin (- 50), n_y = Fin 0, n_parentId = None,
             n_color = None, n_side = None\<rparr>,
           \<lparr>n_id = ''c'', n_label = ''C'', n_x = Fin 50, n_y = Fin 0, n_parentId = Some ''c'',
             n_color = None, n_side = None\<rparr>]"
    by code_simp
  moreover have "autoLayout 2
       [\<lparr>n_id = ''r'', n_label = ''R'', n_x = Fin (- 50), n_y = Fin 0, n_parentId = None,
          n_color = None, n_side = None\<rparr>,
        \<lparr>n_id = ''c'', n_label = ''C'', n_x = Fin 50, n_y = Fin 0, n_parentId = Some ''c'',
          n_color = None, n_side = None\<rparr>] =
     Some [\<lparr>n_id = ''r'', n_label = ''R'', n_x = Fin (- 25), n_y = Fin 0, n_parentId = None,
             n_color = None, n_side = None\<rparr>,
           \<lparr>n_id = ''c'', n_label = ''C'', n_x = Fin 25, n_y = Fin 0, n_parentId = Some ''c'',
             n_color = None, n_side = None\<rparr>]"
    by code_simp
  ultimately show ?thesis by simp
qed

text \<open>
  C10. For a node sequence with pairwise distinct ids, \<^verbatim>\<open>autoLayout\<close> returns, with
  the same result whenever the recursion may go as deep as there are nodes, also when
  parentIds dangle or form cycles; and no placed node lies on a cycle of the parent index.
  Without distinct ids it need not return: for two nodes of the same id, the second a child
  of that id, the recursion never ends, however deep it may go.
\<close>

theorem autoLayout_terminates:
  "(distinct (map n_id nodes) \<longrightarrow>
      (\<exists>out. \<forall>fuel\<ge>length nodes. autoLayout fuel nodes = Some out) \<and>
      (\<forall>c. placed nodes c \<longrightarrow>
         (c, c) \<notin> (kidRel (fst (buildChildrenMap nodes)) (idsOf (nodeStore nodes)))\<^sup>+)) \<and>
   \<not> distinct (map n_id dupIdNodes) \<and> (\<forall>fuel. autoLayout fuel dupIdNodes = None)"
proof -
  have "distinct (map n_id nodes) \<longrightarrow>
      (\<exists>out. \<forall>fuel\<ge>length nodes. autoLayout fuel nodes = Some out) \<and>
      (\<forall>c. placed nodes c \<longrightarrow>
         (c, c) \<notin> (kidRel (fst (buildChildrenMap nodes)) (idsOf (nodeStore nodes)))\<^sup>+)"
  proof
    assume d: "distinct (map n_id nodes)"
    from autoLayout_total [OF d le_refl] obtain out where
      o: "autoLayout (length nodes) nodes = Some out" by blast
    have "\<forall>fuel\<ge>length nodes. autoLayout fuel nodes = Some out"
      using o by (auto intro: autoLayout_fuel_le)
    then have "\<exists>out. \<forall>fuel\<ge>length nodes. autoLayout fuel nodes = Some out" by blast
    moreover have "\<forall>c. placed nodes c \<longrightarrow>
         (c, c) \<notin> (kidRel (fst (buildChildrenMap nodes)) (idsOf (nodeStore nodes)))\<^sup>+"
      using placed_acyclic [OF d] by blast
    ultimately show "(\<exists>out. \<forall>fuel\<ge>length nodes. autoLayout fuel nodes = Some out) \<and>
      (\<forall>c. placed nodes c \<longrightarrow>
         (c, c) \<notin> (kidRel (fst (buildChildrenMap nodes)) (idsOf (nodeStore nodes)))\<^sup>+)" by blast
  qed
  moreover have "\<not> distinct (map n_id dupIdNodes)" by (simp add: dupIdNodes_def)
  moreover have "\<forall>fuel. autoLayout fuel dupIdNodes = None" using dupIdNodes_loops by blast
  ultimately show ?thesis by blast
qed

theorem autoLayout_terminates_witness:
  "distinct (map n_id cycNodes) \<and> length cycNodes = 4 \<and>
   n_parentId (cycNodes ! 1) = Some ''gone'' \<and> ''gone'' \<notin> set (map n_id cycNodes) \<and>
   n_parentId (cycNodes ! 2) = Some (n_id (cycNodes ! 3)) \<and>
   n_parentId (cycNodes ! 3) = Some (n_id (cycNodes ! 2)) \<and>
   (\<exists>out. \<forall>fuel\<ge>length cycNodes. autoLayout fuel cycNodes = Some out) \<and>
   autoLayout 4 cycNodes = Some cycLaid"
proof -
  have d: "distinct (map n_id cycNodes)" by (simp add: cycNodes_def)
  have f: "length cycNodes = 4" "n_parentId (cycNodes ! 1) = Some ''gone''"
    "''gone'' \<notin> set (map n_id cycNodes)"
    "n_parentId (cycNodes ! 2) = Some (n_id (cycNodes ! 3))"
    "n_parentId (cycNodes ! 3) = Some (n_id (cycNodes ! 2))"
    by (simp_all add: cycNodes_def)
  have e: "autoLayout 4 cycNodes = Some cycLaid" by code_simp
  from autoLayout_terminates [of cycNodes] d
  have "\<exists>out. \<forall>fuel\<ge>length cycNodes. autoLayout fuel cycNodes = Some out" by blast
  with d f e show ?thesis by simp
qed

end
